theory Spec2Isabelle
  imports Main
begin

unbundle bit_operations_syntax

section \<open>Data model\<close>

text \<open>
  The exceptions the program can raise: \<open>ValueError\<close> is raised by \<open>toPattern\<close>,
  \<open>KeyError\<close> by a lookup \<open>states[buffer]\<close> of a missing key, \<open>IndexError\<close> by
  \<open>pattern.runs[0]\<close> on an empty list.
\<close>

datatype error = ValueError | KeyError | IndexError

text \<open>
  Class \<open>Pattern\<close>: the list of run lengths, the offset and the builder's counter.
  Python integers are unbounded, hence \<open>int\<close>.
\<close>

record Pattern =
  runs :: "int list"
  offset :: int
  count :: int

text \<open>\<open>Pattern.__init__(self, offset = 0)\<close>.\<close>

definition Pattern_init :: "int \<Rightarrow> Pattern" where
  "Pattern_init off = \<lparr>runs = [], offset = off, count = 0\<rparr>"

text \<open>
  \<open>Pattern.insert(self, bit, steps = 1)\<close>. Every caller passes a boolean for \<open>bit\<close>
  (\<open>states[buffer]\<close> or \<open>c == '#'\<close>); the variable is written \<open>b\<close>, and \<open>bt\<close> in \<open>read\<close>.
\<close>

definition insert_bit :: "Pattern \<Rightarrow> bool \<Rightarrow> int \<Rightarrow> Pattern" where
  "insert_bit p b steps =
     (if runs p = [] \<and> count p = 0 \<and> \<not> b then p
      else
        let filled = (length (runs p) mod 2 = 0);
            p1 = (if (filled \<and> \<not> b) \<or> (\<not> filled \<and> b)
                  then p\<lparr>runs := runs p @ [count p], count := 0\<rparr>
                  else p)
        in p1\<lparr>count := count p1 + steps\<rparr>)"

text \<open>\<open>Pattern.complete(self)\<close>.\<close>

definition complete :: "Pattern \<Rightarrow> Pattern" where
  "complete p =
     (if length (runs p) mod 2 = 0
      then p\<lparr>runs := runs p @ [count p], count := 0\<rparr>
      else p)"

section \<open>Parsing\<close>

text \<open>
  \<open>toPattern(input)\<close>: the loop over the characters, started from \<open>Pattern()\<close>; the first
  character other than \<open>#\<close> and \<open>.\<close> raises \<open>ValueError\<close>.
\<close>

fun toPattern_loop :: "Pattern \<Rightarrow> string \<Rightarrow> error + Pattern" where
  "toPattern_loop p [] = Inr p"
| "toPattern_loop p (c # cs) =
     (if c \<noteq> CHR ''#'' \<and> c \<noteq> CHR ''.'' then Inl ValueError
      else toPattern_loop (insert_bit p (c = CHR ''#'') 1) cs)"

definition toPattern :: "string \<Rightarrow> error + Pattern" where
  "toPattern input =
     (case toPattern_loop (Pattern_init 0) input of
        Inl e \<Rightarrow> Inl e
      | Inr p \<Rightarrow> Inr (complete p))"

section \<open>The transition table\<close>

text \<open>
  \<open>format(i, '05b')\<close> for a non-negative \<open>i\<close>: the binary digits, most significant first,
  padded with zeros on the left to five characters.
\<close>

fun bin_digits :: "nat \<Rightarrow> string" where
  "bin_digits n =
     (if n < 2 then [if n = 0 then CHR ''0'' else CHR ''1'']
      else bin_digits (n div 2) @ [if n mod 2 = 0 then CHR ''0'' else CHR ''1''])"

declare bin_digits.simps [simp del]

definition format_05b :: "nat \<Rightarrow> string" where
  "format_05b i = replicate (5 - length (bin_digits i)) CHR ''0'' @ bin_digits i"

text \<open>The body of the loop of \<open>calculateStates\<close>: the value stored at key \<open>i\<close>.\<close>

definition state_of :: "nat \<Rightarrow> bool" where
  "state_of i =
     (let binary = format_05b i;
          filled = length (filter (\<lambda>c. c = CHR ''1'') binary)
      in if binary ! 2 = CHR ''0'' then filled = 2 \<or> filled = 3
         else filled = 3 \<or> filled = 5)"

text \<open>\<open>calculateStates()\<close>: the dictionary filled for \<open>i\<close> in \<open>range(32)\<close>.\<close>

definition calculateStates :: "int \<rightharpoonup> bool" where
  "calculateStates = foldl (\<lambda>states i. states(int i \<mapsto> state_of i)) Map.empty [0..<32]"

section \<open>Evolution\<close>

text \<open>
  The body of the inner \<open>while run > 0\<close> loop of \<open>read\<close>, on the pair of the buffer and
  the pattern under construction. The lookup \<open>states[buffer]\<close> raises \<open>KeyError\<close> when
  the key is missing.
\<close>

function read_while :: "(int \<rightharpoonup> bool) \<Rightarrow> int \<Rightarrow> int \<Rightarrow> int \<times> Pattern \<Rightarrow> error + int \<times> Pattern" where
  "read_while states bt run (buffer, p) =
     (if run > 0 then
        let buffer1 = (push_bit 1 buffer OR bt) AND 31;
            steps = (if bt + buffer1 = 0 \<or> bt + buffer1 = 32 then run else 1)
        in case states buffer1 of
             None \<Rightarrow> Inl KeyError
           | Some b \<Rightarrow>
               let p1 = insert_bit p b steps;
                   p2 = (if runs p1 = [] \<and> count p1 = 0
                         then p1\<lparr>offset := offset p1 + steps\<rparr> else p1)
               in read_while states bt (run - steps) (buffer1, p2)
      else Inr (buffer, p))"
  by pat_completeness auto
termination
  by (relation "measure (\<lambda>(states, bt, run, s). nat run)") (auto split: if_splits)

declare read_while.simps [simp del]

text \<open>The loop \<open>for run in pattern.runs\<close>, with the alternating \<open>bit\<close>.\<close>

fun read_runs :: "(int \<rightharpoonup> bool) \<Rightarrow> int \<Rightarrow> int list \<Rightarrow> int \<times> Pattern \<Rightarrow> error + int \<times> Pattern" where
  "read_runs states bt [] s = Inr s"
| "read_runs states bt (run # rs) s =
     (case read_while states bt run s of
        Inl e \<Rightarrow> Inl e
      | Inr s1 \<Rightarrow> read_runs states ((bt + 1) mod 2) rs s1)"

text \<open>
  The loop \<open>while buffer > 0\<close> that drains the buffer. The measure counts the shifts that
  are left until the five low bits are zero.
\<close>

definition drain_measure :: "int \<Rightarrow> nat" where
  "drain_measure b =
     (if b \<le> 0 then 0
      else if (2 * b) mod 32 = 0 then 1
      else if (4 * b) mod 32 = 0 then 2
      else if (8 * b) mod 32 = 0 then 3
      else if (16 * b) mod 32 = 0 then 4
      else 5)"

function read_drain :: "(int \<rightharpoonup> bool) \<Rightarrow> int \<times> Pattern \<Rightarrow> error + Pattern" where
  "read_drain states (buffer, p) =
     (if buffer > 0 then
        let buffer1 = push_bit 1 buffer AND 30
        in case states buffer1 of
             None \<Rightarrow> Inl KeyError
           | Some b \<Rightarrow> read_drain states (buffer1, insert_bit p b 1)
      else Inr p)"
  by pat_completeness auto
termination
proof (relation "measure (\<lambda>(states, buffer, p). drain_measure buffer)")
  show "wf (measure (\<lambda>(states, buffer, p). drain_measure buffer))" by simp
next
  fix states :: "int \<rightharpoonup> bool" and buffer :: int and p :: Pattern and x b
  assume pos: "0 < buffer" and "x = push_bit 1 buffer AND 30"
  moreover have "push_bit 1 buffer AND push_bit 1 15 = push_bit 1 (buffer AND 15)"
    by (simp only: push_bit_and)
  moreover have "buffer AND mask 4 = take_bit 4 buffer"
    by (simp only: take_bit_eq_mask)
  ultimately have "x = 2 * (buffer mod 16)"
    by (simp add: take_bit_eq_mod mask_eq_exp_minus_1 push_bit_eq_mult)
  then have x: "x = (2 * buffer) mod 32"
    by (simp add: mult_mod_right)
  have m4: "(2 * ((2 * buffer) mod 32)) mod 32 = (4 * buffer) mod 32"
    by (simp add: mod_mult_right_eq)
  have m8: "(4 * ((2 * buffer) mod 32)) mod 32 = (8 * buffer) mod 32"
    by (simp add: mod_mult_right_eq)
  have m16: "(8 * ((2 * buffer) mod 32)) mod 32 = (16 * buffer) mod 32"
    by (simp add: mod_mult_right_eq)
  have m32: "(16 * ((2 * buffer) mod 32)) mod 32 = 0"
    by (simp add: mod_mult_right_eq)
  have nonneg: "0 \<le> (2 * buffer) mod 32" by simp
  have "drain_measure ((2 * buffer) mod 32) < drain_measure buffer"
    using pos nonneg unfolding drain_measure_def m4 m8 m16 m32
    by (simp split: if_splits)
  then show "((states, x, insert_bit p b 1), (states, buffer, p))
      \<in> measure (\<lambda>(states, buffer, p). drain_measure buffer)"
    by (simp add: x)
qed

declare read_drain.simps [simp del]

text \<open>\<open>read(pattern, states)\<close>.\<close>

definition read :: "Pattern \<Rightarrow> (int \<rightharpoonup> bool) \<Rightarrow> error + Pattern" where
  "read pattern states =
     (case read_runs states 1 (runs pattern) (0, Pattern_init (offset pattern - 2)) of
        Inl e \<Rightarrow> Inl e
      | Inr s \<Rightarrow>
          (case read_drain states s of
             Inl e \<Rightarrow> Inl e
           | Inr p \<Rightarrow> Inr (complete p)))"

section \<open>Classification\<close>

datatype outcome = Vanishing | Blinking | Gliding | Other

text \<open>
  The members of the two sets of \<open>solve\<close> are Python values of two kinds: integers and
  tuples of integers. An integer never equals a tuple.
\<close>

datatype elem = Num int | Tup "int list"

text \<open>
  The first three statements of \<open>solve\<close>: \<open>t = (0,) + tuple(pattern.runs)\<close>, then
  \<open>lines = set(t)\<close> and \<open>patterns = set(t)\<close>. Python's \<open>set(t)\<close> of a tuple \<open>t\<close> is the
  set of the entries of \<open>t\<close>.
\<close>

definition solve_init :: "Pattern \<Rightarrow> elem set \<times> elem set" where
  "solve_init pattern =
     (let t = 0 # runs pattern;
          lines = set (map Num t);
          patterns = set (map Num t)
      in (lines, patterns))"

text \<open>
  The loop \<open>for i in range(100)\<close> of \<open>solve\<close>, with the number of iterations left as first
  argument. The first component of the result counts the calls of \<open>read\<close>; the second is
  the value returned, or the exception raised.
\<close>

fun solve_loop :: "nat \<Rightarrow> (int \<rightharpoonup> bool) \<Rightarrow> Pattern \<Rightarrow> elem set \<Rightarrow> elem set \<Rightarrow> nat \<times> (error + outcome)" where
  "solve_loop 0 states pattern lines patterns = (0, Inr Other)"
| "solve_loop (Suc n) states pattern lines patterns =
     (case read pattern states of
        Inl e \<Rightarrow> (1, Inl e)
      | Inr pattern1 \<Rightarrow>
          (case runs pattern1 of
             [] \<Rightarrow> (1, Inl IndexError)
           | r0 # _ \<Rightarrow>
               if r0 = 0 then (1, Inr Vanishing)
               else
                 let t = Tup (offset pattern1 # runs pattern1)
                 in if t \<in> lines then (1, Inr Blinking)
                    else
                      let lines1 = insert t lines;
                          t1 = Tup (0 # runs pattern1)
                      in if t1 \<in> patterns then (1, Inr Gliding)
                         else
                           let (k, res) = solve_loop n states pattern1 lines1 (insert t1 patterns)
                           in (Suc k, res)))"

definition solve_counted :: "Pattern \<Rightarrow> (int \<rightharpoonup> bool) \<Rightarrow> nat \<times> (error + outcome)" where
  "solve_counted pattern states =
     (let (lines, patterns) = solve_init pattern
      in solve_loop 100 states pattern lines patterns)"

text \<open>\<open>solve(pattern, states)\<close>.\<close>

definition solve :: "Pattern \<Rightarrow> (int \<rightharpoonup> bool) \<Rightarrow> error + outcome" where
  "solve pattern states = snd (solve_counted pattern states)"

section \<open>Reference definitions for the properties\<close>

text \<open>
  The closed form of the rule, as the specification words it: the centre cell is bit 2 of
  the window, and the number of filled cells is the number of set bits among the five.
\<close>

definition popcount5 :: "int \<Rightarrow> nat" where
  "popcount5 w = length (filter (\<lambda>k. bit w k) [0..<5])"

definition closed_form_rule :: "int \<Rightarrow> bool" where
  "closed_form_rule w =
     (if \<not> bit w 2 then popcount5 w = 2 \<or> popcount5 w = 3
      else popcount5 w = 3 \<or> popcount5 w = 5)"

text \<open>The windows that the table maps to a filled cell.\<close>

definition filled_windows :: "int set" where
  "filled_windows = {3, 7, 9, 10, 11, 13, 14, 17, 18, 19, 21, 22, 24, 25, 26, 28, 31}"

text \<open>
  A sequence of \<open>insert\<close> calls on a fresh \<open>Pattern(off)\<close>, each with its \<open>bit\<close> and its
  \<open>steps\<close>, and the same sequence followed by \<open>complete()\<close>.
\<close>

definition inserts :: "int \<Rightarrow> (bool \<times> int) list \<Rightarrow> Pattern" where
  "inserts off ins = foldl (\<lambda>p (b, steps). insert_bit p b steps) (Pattern_init off) ins"

definition build :: "int \<Rightarrow> (bool \<times> int) list \<Rightarrow> Pattern" where
  "build off ins = complete (inserts off ins)"

text \<open>The number of blank cells inserted after the last filled one.\<close>

definition trailing_blanks :: "(bool \<times> int) list \<Rightarrow> int" where
  "trailing_blanks ins = sum_list (map snd (takeWhile (\<lambda>x. \<not> fst x) (rev ins)))"

text \<open>
  A table is complete when it has an entry for each of the 32 windows, as the dictionary
  returned by \<open>calculateStates\<close> has.
\<close>

definition table_complete :: "(int \<rightharpoonup> bool) \<Rightarrow> bool" where
  "table_complete states = (\<forall>w \<in> {0..31}. states w \<noteq> None)"

text \<open>
  The two statements of the inner loop of \<open>read\<close> that follow the lookup: the call of
  \<open>insert\<close> and the increment of the offset while nothing has been written.
\<close>

definition emit :: "Pattern \<Rightarrow> bool \<Rightarrow> int \<Rightarrow> Pattern" where
  "emit p b steps =
     (let p1 = insert_bit p b steps
      in if runs p1 = [] \<and> count p1 = 0 then p1\<lparr>offset := offset p1 + steps\<rparr> else p1)"

text \<open>
  One cell read without the shortcut: the buffer slides by the cell \<open>c\<close>, and the entry
  of the table for the new buffer is written with one step.
\<close>

definition feed :: "(int \<rightharpoonup> bool) \<Rightarrow> int \<times> Pattern \<Rightarrow> bool \<Rightarrow> int \<times> Pattern" where
  "feed states s c =
     (let buffer1 = (2 * fst s + of_bool c) mod 32
      in (buffer1, emit (snd s) (the (states buffer1)) 1))"

text \<open>
  The cells that a list of run lengths stands for, the first run made of cells \<open>c\<close> and
  the kinds alternating; a run length that is not positive stands for no cell, as in the
  loop \<open>while run > 0\<close>.
\<close>

fun expand :: "bool \<Rightarrow> int list \<Rightarrow> bool list" where
  "expand c [] = []"
| "expand c (r # rs) = replicate (nat r) c @ expand (\<not> c) rs"

text \<open>
  The states of a pattern under construction that positive steps lead to: the closed runs
  are positive, and so is the counter once a run is closed.
\<close>

definition builder_ok :: "Pattern \<Rightarrow> bool" where
  "builder_ok p = (0 \<le> count p \<and> list_all (\<lambda>r. 0 < r) (runs p) \<and> (runs p \<noteq> [] \<longrightarrow> 0 < count p))"

text \<open>
  The bit-by-bit simulation without the shortcut that the specification compares \<open>read\<close>
  with: the same loops, every cell read with one step.
\<close>

function read_naive_while :: "(int \<rightharpoonup> bool) \<Rightarrow> int \<Rightarrow> int \<Rightarrow> int \<times> Pattern \<Rightarrow> error + int \<times> Pattern" where
  "read_naive_while states bt run (buffer, p) =
     (if run > 0 then
        let buffer1 = (push_bit 1 buffer OR bt) AND 31
        in case states buffer1 of
             None \<Rightarrow> Inl KeyError
           | Some b \<Rightarrow>
               let p1 = insert_bit p b 1;
                   p2 = (if runs p1 = [] \<and> count p1 = 0
                         then p1\<lparr>offset := offset p1 + 1\<rparr> else p1)
               in read_naive_while states bt (run - 1) (buffer1, p2)
      else Inr (buffer, p))"
  by pat_completeness auto
termination
  by (relation "measure (\<lambda>(states, bt, run, s). nat run)") auto

declare read_naive_while.simps [simp del]

fun read_naive_runs :: "(int \<rightharpoonup> bool) \<Rightarrow> int \<Rightarrow> int list \<Rightarrow> int \<times> Pattern \<Rightarrow> error + int \<times> Pattern" where
  "read_naive_runs states bt [] s = Inr s"
| "read_naive_runs states bt (run # rs) s =
     (case read_naive_while states bt run s of
        Inl e \<Rightarrow> Inl e
      | Inr s1 \<Rightarrow> read_naive_runs states ((bt + 1) mod 2) rs s1)"

definition read_naive :: "Pattern \<Rightarrow> (int \<rightharpoonup> bool) \<Rightarrow> error + Pattern" where
  "read_naive pattern states =
     (case read_naive_runs states 1 (runs pattern) (0, Pattern_init (offset pattern - 2)) of
        Inl e \<Rightarrow> Inl e
      | Inr s \<Rightarrow>
          (case read_drain states s of
             Inl e \<Rightarrow> Inl e
           | Inr p \<Rightarrow> Inr (complete p)))"

text \<open>
  The cells of a completed pattern, from its first cell on: the runs are filled and blank
  in turn, the first one filled.
\<close>

definition cells :: "Pattern \<Rightarrow> bool list" where
  "cells p = expand True (runs p)"

text \<open>A pattern has no filled cell.\<close>

definition no_filled :: "Pattern \<Rightarrow> bool" where
  "no_filled p = (True \<notin> set (cells p))"

text \<open>
  The completed patterns without blank cells at either end: an odd number of runs, all of
  them positive, or the single run of length zero that stands for the blank line.
\<close>

definition trimmed :: "Pattern \<Rightarrow> bool" where
  "trimmed p = (odd (length (runs p)) \<and> (runs p = [0] \<or> list_all (\<lambda>r. 0 < r) (runs p)))"

text \<open>
  The generations of a pattern: generation 0 is the pattern itself, and generation
  \<open>k + 1\<close> is what \<open>read\<close> returns on generation \<open>k\<close>.
\<close>

fun generation :: "(int \<rightharpoonup> bool) \<Rightarrow> Pattern \<Rightarrow> nat \<Rightarrow> error + Pattern" where
  "generation states p 0 = Inr p"
| "generation states p (Suc k) =
     (case generation states p k of Inl e \<Rightarrow> Inl e | Inr q \<Rightarrow> read q states)"

text \<open>
  The tuples that the generations 1 to \<open>k\<close> add to the sets \<open>lines\<close> and \<open>patterns\<close> of
  \<open>solve\<close>, on top of their initial members.
\<close>

definition line_of :: "error + Pattern \<Rightarrow> elem set" where
  "line_of r = (case r of Inl e \<Rightarrow> {} | Inr q \<Rightarrow> {Tup (offset q # runs q)})"

definition shape_of :: "error + Pattern \<Rightarrow> elem set" where
  "shape_of r = (case r of Inl e \<Rightarrow> {} | Inr q \<Rightarrow> {Tup (0 # runs q)})"

definition seen_lines :: "(int \<rightharpoonup> bool) \<Rightarrow> Pattern \<Rightarrow> nat \<Rightarrow> elem set" where
  "seen_lines states p k = fst (solve_init p) \<union> (\<Union>j \<in> {1..k}. line_of (generation states p j))"

definition seen_patterns :: "(int \<rightharpoonup> bool) \<Rightarrow> Pattern \<Rightarrow> nat \<Rightarrow> elem set" where
  "seen_patterns states p k = snd (solve_init p) \<union> (\<Union>j \<in> {1..k}. shape_of (generation states p j))"

text \<open>
  One of the three conditions of \<open>solve\<close> holds at generation \<open>k\<close>: its first run is zero
  (vanishing), its line is among the lines seen before (blinking), or its shape is among
  the shapes seen before (gliding).
\<close>

definition triggers :: "(int \<rightharpoonup> bool) \<Rightarrow> Pattern \<Rightarrow> nat \<Rightarrow> bool" where
  "triggers states p k =
     (case generation states p k of
        Inl e \<Rightarrow> False
      | Inr q \<Rightarrow>
          hd (runs q) = 0
          \<or> Tup (offset q # runs q) \<in> seen_lines states p (k - 1)
          \<or> Tup (0 # runs q) \<in> seen_patterns states p (k - 1))"

text \<open>
  The line that a completed pattern stands for: the cell at position \<open>i\<close> is filled when
  \<open>i\<close> lies in the support, which starts at the offset, and the cell decoded there is
  filled. Every cell outside the support is blank.
\<close>

definition cell_at :: "Pattern \<Rightarrow> int \<Rightarrow> bool" where
  "cell_at p i =
     (offset p \<le> i \<and> i < offset p + int (length (cells p)) \<and> cells p ! nat (i - offset p))"

text \<open>
  The window of five cells centred on position \<open>i\<close>, as the buffer holds it: the cell read
  last, at \<open>i + 2\<close>, is the lowest bit.
\<close>

definition window :: "(int \<Rightarrow> bool) \<Rightarrow> int \<Rightarrow> int" where
  "window f i =
     16 * of_bool (f (i - 2)) + 8 * of_bool (f (i - 1)) + 4 * of_bool (f i)
       + 2 * of_bool (f (i + 1)) + of_bool (f (i + 2))"

text \<open>The cell at position \<open>i\<close> of the next line: the entry of the table for its window.\<close>

definition next_cell :: "(int \<rightharpoonup> bool) \<Rightarrow> (int \<Rightarrow> bool) \<Rightarrow> int \<Rightarrow> bool" where
  "next_cell states f i = (states (window f i) = Some True)"

text \<open>
  The cells written so far to a pattern under construction, its counter standing for the
  run that is still open; the position after the last of them; and the line they make.
\<close>

definition bcells :: "Pattern \<Rightarrow> bool list" where
  "bcells p = expand True (runs p @ [count p])"

definition bend :: "Pattern \<Rightarrow> int" where
  "bend p = offset p + int (length (bcells p))"

definition bcell_at :: "Pattern \<Rightarrow> int \<Rightarrow> bool" where
  "bcell_at p i = (offset p \<le> i \<and> i < bend p \<and> bcells p ! nat (i - offset p))"

text \<open>
  The buffers that can be reached while every cell written is blank.
\<close>

definition quiet_buffers :: "int set" where
  "quiet_buffers = {0, 1, 2, 4, 5, 8, 16}"

text \<open>
  The invariant of the loop over the runs: \<open>e\<close> is the position of the next cell to
  write, the buffer is the window centred on the position before it, and the cells written
  are those of the next line before \<open>e\<close>.
\<close>

definition reading :: "Pattern \<Rightarrow> int \<Rightarrow> int \<times> Pattern \<Rightarrow> bool" where
  "reading p e s =
     (fst s = window (cell_at p) (e - 1)
      \<and> builder_ok (snd s)
      \<and> bend (snd s) = e
      \<and> (\<forall>i. bcell_at (snd s) i = (i < e \<and> next_cell calculateStates (cell_at p) i))
      \<and> (runs (snd s) = [] \<and> count (snd s) = 0 \<longrightarrow> fst s \<in> quiet_buffers))"

text \<open>
  The invariant of the loop that drains the buffer, which no longer moves the offset: no
  cell of the pattern read lies at \<open>e + 2\<close> or beyond; once a cell is written the cells
  are those of the next line before \<open>e\<close>; until then every cell of the next line before
  \<open>e\<close> is blank and the buffer is a quiet one, with the offset at \<open>e\<close> when a filled cell
  is still to come.
\<close>

definition draining :: "Pattern \<Rightarrow> int \<Rightarrow> int \<times> Pattern \<Rightarrow> bool" where
  "draining p e s =
     (fst s = window (cell_at p) (e - 1)
      \<and> builder_ok (snd s)
      \<and> (\<forall>j. e + 2 \<le> j \<longrightarrow> \<not> cell_at p j)
      \<and> (if runs (snd s) = [] \<and> count (snd s) = 0
          then (\<forall>i. i < e \<longrightarrow> \<not> next_cell calculateStates (cell_at p) i)
               \<and> fst s \<in> quiet_buffers \<and> (fst s = 5 \<longrightarrow> offset (snd s) = e)
          else bend (snd s) = e
               \<and> (\<forall>i. bcell_at (snd s) i = (i < e \<and> next_cell calculateStates (cell_at p) i))))"

section \<open>Bit operations on the buffer\<close>

lemma and_15_eq: "(x::int) AND 15 = x mod 16"
proof -
  have "x AND mask 4 = take_bit 4 x"
    by (simp only: take_bit_eq_mask)
  then show ?thesis by (simp add: take_bit_eq_mod mask_eq_exp_minus_1)
qed

lemma and_31_eq: "(x::int) AND 31 = x mod 32"
proof -
  have "x AND mask 5 = take_bit 5 x"
    by (simp only: take_bit_eq_mask)
  then show ?thesis by (simp add: take_bit_eq_mod mask_eq_exp_minus_1)
qed

lemma and_30_eq: "(push_bit 1 (b::int)) AND 30 = (2 * b) mod 32"
proof -
  have "push_bit 1 b AND push_bit 1 15 = push_bit 1 (b AND 15)"
    by (simp only: push_bit_and)
  then have "push_bit 1 b AND 30 = 2 * (b mod 16)"
    by (simp add: and_15_eq push_bit_eq_mult)
  also have "\<dots> = (2 * b) mod 32"
    by (simp add: mult_mod_right)
  finally show ?thesis .
qed

lemma or_bit_eq: "bt = 0 \<or> bt = 1 \<Longrightarrow> push_bit 1 (b::int) OR bt = 2 * b + bt"
  by (auto simp: push_bit_eq_mult or_one_eq mult.commute)

section \<open>The entries of the table\<close>

lemma foldl_states_lookup:
  "foldl (\<lambda>states i. states(int i \<mapsto> f i)) m0 xs w =
     (if \<exists>i \<in> set xs. int i = w then Some (f (nat w)) else m0 w)"
  by (induction xs rule: rev_induct) auto

lemma calculateStates_lookup:
  "calculateStates w = (if 0 \<le> w \<and> w < 32 then Some (state_of (nat w)) else None)"
proof -
  have "(\<exists>i \<in> set [0..<32]. int i = w) \<longleftrightarrow> 0 \<le> w \<and> w < 32"
    by (auto intro: bexI [of _ "nat w"])
  then show ?thesis
    unfolding calculateStates_def foldl_states_lookup by simp
qed

lemma state_of_values: "list_all (\<lambda>i. state_of i = (int i \<in> filled_windows)) [0..<32]"
  by code_simp

lemma closed_form_values: "list_all (\<lambda>i. closed_form_rule (int i) = (int i \<in> filled_windows)) [0..<32]"
  by code_simp

lemma state_of_filled: "i < 32 \<Longrightarrow> state_of i = (int i \<in> filled_windows)"
  using state_of_values by (simp add: list_all_iff)

lemma closed_form_filled: "i < 32 \<Longrightarrow> closed_form_rule (int i) = (int i \<in> filled_windows)"
  using closed_form_values by (simp add: list_all_iff)

lemma calculateStates_eq:
  "calculateStates w = (if 0 \<le> w \<and> w < 32 then Some (w \<in> filled_windows) else None)"
proof (cases "0 \<le> w \<and> w < 32")
  case True
  then have "nat w < 32" by linarith
  then have "state_of (nat w) = (int (nat w) \<in> filled_windows)"
    by (rule state_of_filled)
  with True have "state_of (nat w) = (w \<in> filled_windows)" by simp
  with True show ?thesis by (simp add: calculateStates_lookup)
next
  case False
  then show ?thesis by (auto simp: calculateStates_lookup)
qed

text \<open>
  Claim C2. For every window value \<open>w\<close> from 0 to 31, the table built by
  \<open>calculateStates\<close> holds at \<open>w\<close> the value of the closed-form rule: with a blank centre
  (bit 2 of \<open>w\<close>) filled iff two or three of the five bits are set, with a filled centre
  filled iff three or five are.
\<close>

theorem table_matches_closed_form:
  "0 \<le> w \<Longrightarrow> w \<le> 31 \<Longrightarrow> calculateStates w = Some (closed_form_rule w)"
proof -
  assume w: "0 \<le> w" "w \<le> 31"
  then have "closed_form_rule w = (w \<in> filled_windows)"
    using closed_form_filled [of "nat w"] by simp
  with w show ?thesis by (simp add: calculateStates_eq)
qed

theorem table_matches_closed_form_witness:
  "calculateStates 11 = Some (closed_form_rule 11) \<and> closed_form_rule 11"
proof -
  have "calculateStates 11 = Some (closed_form_rule 11)"
    by (rule table_matches_closed_form) simp_all
  moreover have "closed_form_rule 11" by code_simp
  ultimately show ?thesis by simp
qed


lemmas insert_eval = insert_bit_def complete_def Pattern_init_def Let_def

lemma offset_insert_bit: "offset (insert_bit p b steps) = offset p"
  by (simp add: insert_bit_def Let_def)

lemma offset_complete: "offset (complete p) = offset p"
  by (simp add: complete_def)

lemma toPattern_loop_offset: "toPattern_loop p input = Inr q \<Longrightarrow> offset q = offset p"
  by (induction p input rule: toPattern_loop.induct) (auto simp: offset_insert_bit split: if_splits)

section \<open>The parser\<close>

text \<open>
  Claim C5 as stated fails: parsing \<open>..#.#..\<close> gives the offset 0, not 2.
\<close>

theorem toPattern_offset_counterexample:
  "toPattern ''..#.#..'' = Inr \<lparr>runs = [1, 1, 1], offset = 0, count = 2\<rparr>
   \<and> offset (projr (toPattern ''..#.#..'')) \<noteq> 2"
  by (simp add: toPattern_def insert_eval)

text \<open>The errors of the parsing loop.\<close>

lemma toPattern_loop_error:
  "(\<exists>e. toPattern_loop p input = Inl e) \<longleftrightarrow> (\<exists>c \<in> set input. c \<noteq> CHR ''#'' \<and> c \<noteq> CHR ''.'')"
  by (induction p input rule: toPattern_loop.induct) auto

lemma toPattern_loop_ValueError:
  "toPattern_loop p input = Inl e \<Longrightarrow> e = ValueError"
  by (induction p input rule: toPattern_loop.induct) (auto split: if_splits)

text \<open>
  Claim C8. \<open>toPattern\<close> raises an error (and then it is \<open>ValueError\<close>) if and only if the
  input holds a character other than \<open>#\<close> and \<open>.\<close>; on an input made of these two
  characters only it returns the pattern that \<open>complete()\<close> returned.
\<close>

theorem toPattern_raises_iff:
  "(toPattern input = Inl ValueError \<longleftrightarrow> (\<exists>c \<in> set input. c \<noteq> CHR ''#'' \<and> c \<noteq> CHR ''.''))
   \<and> ((\<forall>c \<in> set input. c = CHR ''#'' \<or> c = CHR ''.'') \<longrightarrow>
        (\<exists>q. toPattern input = Inr (complete q)))
   \<and> (\<forall>e. toPattern input = Inl e \<longrightarrow> e = ValueError)"
proof -
  have 1: "(\<exists>e. toPattern input = Inl e) \<longleftrightarrow> (\<exists>c \<in> set input. c \<noteq> CHR ''#'' \<and> c \<noteq> CHR ''.'')"
    using toPattern_loop_error [of "Pattern_init 0" input]
    by (auto simp: toPattern_def split: sum.splits)
  have 2: "e = ValueError" if "toPattern input = Inl e" for e
    using that toPattern_loop_ValueError [of "Pattern_init 0" input e]
    by (auto simp: toPattern_def split: sum.splits)
  have 3: "\<exists>q. toPattern input = Inr (complete q)" if "\<forall>c \<in> set input. c = CHR ''#'' \<or> c = CHR ''.''"
  proof (cases "toPattern_loop (Pattern_init 0) input")
    case (Inl e)
    then have "\<exists>e. toPattern input = Inl e" by (simp add: toPattern_def)
    with 1 that show ?thesis by blast
  next
    case (Inr q)
    then show ?thesis by (auto simp: toPattern_def)
  qed
  from 1 2 3 show ?thesis by blast
qed

theorem toPattern_raises_iff_witness:
  "toPattern ''.#.'' = Inr \<lparr>runs = [1], offset = 0, count = 1\<rparr>
   \<and> toPattern ''#x.'' = Inl ValueError"
proof -
  have "toPattern ''#x.'' = Inl ValueError \<longleftrightarrow> (\<exists>c \<in> set ''#x.''. c \<noteq> CHR ''#'' \<and> c \<noteq> CHR ''.'')"
    using toPattern_raises_iff [of "''#x.''"] by blast
  then have bad: "toPattern ''#x.'' = Inl ValueError" by simp
  have "(\<forall>c \<in> set ''.#.''. c = CHR ''#'' \<or> c = CHR ''.'') \<longrightarrow>
        (\<exists>q. toPattern ''.#.'' = Inr (complete q))"
    using toPattern_raises_iff [of "''.#.''"] by blast
  then have "\<exists>q. toPattern ''.#.'' = Inr (complete q)" by simp
  then have "toPattern ''.#.'' = Inr \<lparr>runs = [1], offset = 0, count = 1\<rparr>"
    by (simp add: toPattern_def insert_eval)
  with bad show ?thesis by simp
qed

section \<open>The builder\<close>

lemma inserts_snoc: "inserts off (ins @ [(b, steps)]) = insert_bit (inserts off ins) b steps"
  by (simp add: inserts_def)

lemma inserts_Nil: "inserts off [] = Pattern_init off"
  by (simp add: inserts_def)

lemma trailing_blanks_snoc:
  "trailing_blanks (ins @ [(b, steps)]) = (if b then 0 else steps + trailing_blanks ins)"
  by (simp add: trailing_blanks_def)

lemma trailing_blanks_last: "ins \<noteq> [] \<Longrightarrow> fst (last ins) \<Longrightarrow> trailing_blanks ins = 0"
  by (cases ins rule: rev_cases) (auto simp: trailing_blanks_def)

lemma inserts_state:
  "\<forall>x \<in> set ins. 0 < snd x \<Longrightarrow>
     (if \<exists>x \<in> set ins. fst x
      then 0 < count (inserts off ins)
           \<and> (even (length (runs (inserts off ins))) \<longleftrightarrow> fst (last ins))
           \<and> (\<not> fst (last ins) \<longrightarrow> count (inserts off ins) = trailing_blanks ins)
      else inserts off ins = Pattern_init off)"
proof (induction ins rule: rev_induct)
  case Nil
  then show ?case by (simp add: inserts_Nil)
next
  case (snoc x ins)
  obtain b steps where x: "x = (b, steps)" by (cases x)
  from snoc.prems x have pos: "0 < steps" and rest: "\<forall>x \<in> set ins. 0 < snd x" by auto
  note IH = snoc.IH [OF rest]
  show ?case
  proof (cases "\<exists>x \<in> set ins. fst x")
    case True
    with IH have c: "0 < count (inserts off ins)"
      and e: "even (length (runs (inserts off ins))) \<longleftrightarrow> fst (last ins)"
      and t: "\<not> fst (last ins) \<Longrightarrow> count (inserts off ins) = trailing_blanks ins"
      by simp_all
    from True have ne: "ins \<noteq> []" by auto
    show ?thesis
    proof (cases b)
      case True
      with c e pos \<open>\<exists>x \<in> set ins. fst x\<close> show ?thesis
        by (auto simp: x inserts_snoc insert_bit_def Let_def)
    next
      case False
      show ?thesis
      proof (cases "fst (last ins)")
        case True
        with False c e pos \<open>\<exists>x \<in> set ins. fst x\<close> ne show ?thesis
          by (auto simp: x inserts_snoc insert_bit_def Let_def trailing_blanks_snoc
              trailing_blanks_last)
      next
        case f: False
        with False c e t pos \<open>\<exists>x \<in> set ins. fst x\<close> show ?thesis
          by (auto simp: x inserts_snoc insert_bit_def Let_def trailing_blanks_snoc
              even_iff_mod_2_eq_zero)
      qed
    qed
  next
    case False
    with IH have "inserts off ins = Pattern_init off" by simp
    with False pos show ?thesis
      by (auto simp: x inserts_snoc insert_bit_def Let_def Pattern_init_def)
  qed
qed


text \<open>
  Claim C9 as stated fails: after a filled cell and a blank cell, \<open>complete()\<close> returns
  the pattern with \<open>count = 1\<close>.
\<close>

theorem count_after_complete_counterexample:
  "count (complete (insert_bit (insert_bit (Pattern_init 0) True 1) False 1)) \<noteq> 0"
  by (simp add: insert_eval)

text \<open>
  Claim C9, amended. For every sequence of \<open>insert\<close> calls with positive \<open>steps\<close> followed
  by \<open>complete()\<close>, the counter of the returned pattern is the number of blank cells
  inserted after the last filled cell. So it is zero when the last cell inserted is filled
  or when no filled cell was inserted, and it is positive when blank cells follow the last
  filled one: \<open>complete()\<close> resets the counter only when it appends the hanging run.
\<close>

theorem count_after_complete:
  assumes "\<forall>x \<in> set ins. 0 < snd x"
  shows "count (build off ins) = (if \<exists>x \<in> set ins. fst x then trailing_blanks ins else 0)"
proof (cases "\<exists>x \<in> set ins. fst x")
  case True
  then have ne: "ins \<noteq> []" by auto
  from True inserts_state [OF assms, of off]
  have e: "even (length (runs (inserts off ins))) \<longleftrightarrow> fst (last ins)"
    and t: "\<not> fst (last ins) \<Longrightarrow> count (inserts off ins) = trailing_blanks ins"
    by simp_all
  show ?thesis
  proof (cases "fst (last ins)")
    case l: True
    with e True ne show ?thesis
      by (simp add: build_def complete_def trailing_blanks_last)
  next
    case l: False
    with e t True show ?thesis
      by (simp add: build_def complete_def even_iff_mod_2_eq_zero)
  qed
next
  case False
  with inserts_state [OF assms, of off] have "inserts off ins = Pattern_init off" by simp
  with False show ?thesis by (simp add: build_def complete_def Pattern_init_def)
qed

theorem count_after_complete_witness:
  "count (build 0 [(True, 2), (False, 3), (False, 1)]) = 4
   \<and> count (build 0 [(False, 3), (True, 2)]) = 0"
proof -
  have "count (build 0 [(True, 2), (False, 3), (False, 1)]) =
      (if \<exists>x \<in> set [(True, 2), (False, 3), (False, 1::int)]. fst x
       then trailing_blanks [(True, 2), (False, 3), (False, 1)] else 0)"
    by (rule count_after_complete) simp
  moreover have "count (build 0 [(False, 3), (True, 2)]) =
      (if \<exists>x \<in> set [(False, 3), (True, 2::int)]. fst x
       then trailing_blanks [(False, 3), (True, 2)] else 0)"
    by (rule count_after_complete) simp
  ultimately show ?thesis by (simp add: trailing_blanks_def)
qed

section \<open>The initial sets of solve\<close>

text \<open>
  Claim C4, evaluated on the code. The initial pattern parsed from \<open>#.###\<close> has the runs
  \<open>[1, 1, 3]\<close> at offset 0, and its successor has the same runs at offset 1. The sets
  \<open>lines\<close> and \<open>patterns\<close> start as the set of the integers 0, 1 and 3: neither holds the
  tuple \<open>(0, 1, 1, 3)\<close>, and \<open>solve\<close> returns \<open>gliding\<close> after the second call of \<open>read\<close>,
  not after the first.
\<close>

theorem solve_seed_misses_tuple:
  "toPattern ''#.###'' = Inr \<lparr>runs = [1, 1, 3], offset = 0, count = 0\<rparr>
   \<and> read \<lparr>runs = [1, 1, 3], offset = 0, count = 0\<rparr> calculateStates
       = Inr \<lparr>runs = [1, 1, 3], offset = 1, count = 2\<rparr>
   \<and> solve_init \<lparr>runs = [1, 1, 3], offset = 0, count = 0\<rparr> = ({Num 0, Num 1, Num 3}, {Num 0, Num 1, Num 3})
   \<and> Tup [0, 1, 1, 3] \<notin> fst (solve_init \<lparr>runs = [1, 1, 3], offset = 0, count = 0\<rparr>)
   \<and> Tup [0, 1, 1, 3] \<notin> snd (solve_init \<lparr>runs = [1, 1, 3], offset = 0, count = 0\<rparr>)
   \<and> solve_counted \<lparr>runs = [1, 1, 3], offset = 0, count = 0\<rparr> calculateStates = (2, Inr Gliding)"
  by code_simp

section \<open>The loops of read\<close>

lemma table_completeD: "table_complete states \<Longrightarrow> 0 \<le> w \<Longrightarrow> w < 32 \<Longrightarrow> states w = Some (the (states w))"
  by (auto simp: table_complete_def)

lemma table_complete_calculateStates: "table_complete calculateStates"
  by (simp add: table_complete_def calculateStates_eq)

lemma builder_ok_init: "builder_ok (Pattern_init off)"
  by (simp add: builder_ok_def Pattern_init_def)

lemma builder_ok_insert: "builder_ok p \<Longrightarrow> 0 < steps \<Longrightarrow> builder_ok (insert_bit p b steps)"
  by (auto simp: builder_ok_def insert_bit_def Let_def)

lemma builder_ok_offset: "builder_ok (p\<lparr>offset := x\<rparr>) = builder_ok p"
  by (simp add: builder_ok_def)

lemma builder_ok_emit: "builder_ok p \<Longrightarrow> 0 < steps \<Longrightarrow> builder_ok (emit p b steps)"
  by (simp add: emit_def Let_def builder_ok_offset builder_ok_insert)

lemma emit_blank_start:
  "runs p = [] \<Longrightarrow> count p = 0 \<Longrightarrow> emit p False k = p\<lparr>offset := offset p + k\<rparr>"
  by (simp add: emit_def insert_bit_def)

lemma emit_started:
  "builder_ok p \<Longrightarrow> 0 < k \<Longrightarrow> \<not> (runs p = [] \<and> count p = 0 \<and> \<not> b) \<Longrightarrow>
     emit p b k = insert_bit p b k
     \<and> \<not> (runs (insert_bit p b k) = [] \<and> count (insert_bit p b k) = 0)
     \<and> (length (runs (insert_bit p b k)) mod 2 = 0) = b"
  unfolding emit_def insert_bit_def builder_ok_def Let_def
  by (cases "length (runs p) mod 2 = 0"; cases b; simp; presburger)

lemma insert_bit_same:
  "(length (runs q) mod 2 = 0) = b \<Longrightarrow> \<not> (runs q = [] \<and> count q = 0) \<Longrightarrow>
     insert_bit q b j = q\<lparr>count := count q + j\<rparr>"
  unfolding insert_bit_def Let_def by (cases b) auto

lemma insert_bit_add:
  "\<not> (runs p = [] \<and> count p = 0 \<and> \<not> b) \<Longrightarrow>
     (insert_bit p b k)\<lparr>count := count (insert_bit p b k) + j\<rparr> = insert_bit p b (k + j)"
  unfolding insert_bit_def Let_def
  by (cases "(length (runs p) mod 2 = 0 \<and> \<not> b) \<or> (\<not> length (runs p) mod 2 = 0 \<and> b)")
    (auto simp: add.assoc)

lemma read_while_step:
  "0 < run \<Longrightarrow> (push_bit 1 (buffer::int) OR bt) AND 31 = w \<Longrightarrow> states w = Some b \<Longrightarrow>
     read_while states bt run (buffer, p) =
       (if bt + w = 0 \<or> bt + w = 32 then read_while states bt 0 (w, emit p b run)
        else read_while states bt (run - 1) (w, emit p b 1))"
  by (subst read_while.simps) (simp add: Let_def emit_def)

lemma read_while_stop: "\<not> 0 < run \<Longrightarrow> read_while states bt run s = Inr s"
  by (cases s) (simp add: read_while.simps)

lemma emit_add:
  assumes ok: "builder_ok p" and k: "0 < k"
  shows "emit (emit p b k) b 1 = emit p b (k + 1)"
proof (cases "runs p = [] \<and> count p = 0 \<and> \<not> b")
  case True
  then show ?thesis by (simp add: emit_blank_start add.assoc)
next
  case False
  from k have k1: "0 < k + 1" by simp
  note a = emit_started [OF ok k False]
  note b = emit_started [OF ok k1 False]
  from a have ok1: "builder_ok (insert_bit p b k)"
    using builder_ok_insert [OF ok k] by simp
  have "emit (emit p b k) b 1 = emit (insert_bit p b k) b 1"
    using a by simp
  also have "\<dots> = insert_bit (insert_bit p b k) b 1"
    using emit_started [OF ok1, of 1 b] a by auto
  also have "\<dots> = (insert_bit p b k)\<lparr>count := count (insert_bit p b k) + 1\<rparr>"
    using a by (intro insert_bit_same) simp_all
  also have "\<dots> = insert_bit p b (k + 1)"
    using False by (rule insert_bit_add)
  also have "\<dots> = emit p b (k + 1)"
    using b by simp
  finally show ?thesis .
qed

lemma feed_fixed:
  assumes ok: "builder_ok p" and fx: "(2 * w + of_bool c) mod 32 = w" and w: "(2 * buffer + of_bool c) mod 32 = w"
  shows "foldl (feed states) (buffer, p) (replicate (Suc n) c) = (w, emit p (the (states w)) (int (Suc n)))"
proof (induction n)
  case 0
  show ?case by (simp add: feed_def w)
next
  case (Suc n)
  have "foldl (feed states) (buffer, p) (replicate (Suc (Suc n)) c)
      = feed states (foldl (feed states) (buffer, p) (replicate (Suc n) c)) c"
    by (simp only: replicate_Suc [of "Suc n"] replicate_append_same [symmetric] foldl_append foldl.simps)
  also have "\<dots> = feed states (w, emit p (the (states w)) (int (Suc n))) c"
    by (simp only: Suc)
  also have "\<dots> = (w, emit (emit p (the (states w)) (int (Suc n))) (the (states w)) 1)"
    by (simp add: feed_def fx)
  also have "emit (emit p (the (states w)) (int (Suc n))) (the (states w)) 1 = emit p (the (states w)) (int (Suc n) + 1)"
    by (rule emit_add [OF ok]) simp
  finally show ?case by (simp add: add.commute)
qed

lemma shift_in_eq:
  "bt = 0 \<or> bt = 1 \<Longrightarrow>
     (push_bit 1 (buffer::int) OR bt) AND 31 = (2 * buffer + of_bool (bt = 1)) mod 32"
proof -
  assume bt: "bt = 0 \<or> bt = 1"
  then have "push_bit 1 buffer OR bt = 2 * buffer + of_bool (bt = 1)"
    using or_bit_eq [of bt buffer] by auto
  then show ?thesis by (simp only: and_31_eq)
qed



lemma read_while_fold:
  "table_complete states \<Longrightarrow> bt = 0 \<or> bt = 1 \<Longrightarrow> builder_ok (snd s) \<Longrightarrow>
     read_while states bt run s = Inr (foldl (feed states) s (replicate (nat run) (bt = 1)))"
proof (induction states bt run s rule: read_while.induct)
  case (1 states bt run buffer p)
  define w where "w = (2 * buffer + of_bool (bt = 1)) mod 32"
  define b where "b = the (states w)"
  from 1(4) have ok: "builder_ok p" by simp
  have w_eq: "(push_bit 1 buffer OR bt) AND 31 = w"
    using 1(3) by (simp only: w_def shift_in_eq)
  have w_range: "0 \<le> w" "w < 32" by (simp_all add: w_def)
  have look: "states w = Some b"
    using table_completeD [OF 1(2) w_range] by (simp add: b_def)
  show ?case
  proof (cases "0 < run")
    case False
    then show ?thesis by (simp add: read_while_stop)
  next
    case True
    define n where "n = nat (run - 1)"
    have n: "nat run = Suc n" "run = int (Suc n)" "run - 1 = int n"
      using True by (simp_all add: n_def)
    show ?thesis
    proof (cases "bt + w = 0 \<or> bt + w = 32")
      case skip: True
      with 1(3) w_range have fx: "(2 * w + of_bool (bt = 1)) mod 32 = w"
        by auto
      have "read_while states bt run (buffer, p)
          = read_while states bt 0 (w, emit p b run)"
        using skip by (simp only: read_while_step [of run buffer bt w states b p, OF True w_eq look] if_True)
      also have "\<dots> = Inr (w, emit p b run)"
        by (simp add: read_while_stop)
      also have "(w, emit p b run) = foldl (feed states) (buffer, p) (replicate (nat run) (bt = 1))"
        using feed_fixed [OF ok fx, of buffer states n] n
        by (simp only: w_def b_def)
      finally show ?thesis .
    next
      case noskip: False
      have ok1: "builder_ok (emit p b 1)"
        by (rule builder_ok_emit [OF ok]) simp
      have "read_while states bt run (buffer, p)
          = read_while states bt (run - 1) (w, emit p b 1)"
        using noskip by (simp only: read_while_step [of run buffer bt w states b p, OF True w_eq look] if_False)
      also have "\<dots> = Inr (foldl (feed states) (w, emit p b 1) (replicate (nat (run - 1)) (bt = 1)))"
        by (rule 1(1) [where x = w and xa = 1 and ?x2.0 = b and xb = "insert_bit p b 1"])
          (use True noskip look w_eq ok1 1(2,3) in \<open>simp_all add: emit_def Let_def\<close>)
      also have "foldl (feed states) (w, emit p b 1) (replicate (nat (run - 1)) (bt = 1))
          = foldl (feed states) (buffer, p) (replicate (nat run) (bt = 1))"
      proof -
        have "nat run = Suc (nat (run - 1))" using True by simp
        then have "replicate (nat run) (bt = 1) = (bt = 1) # replicate (nat (run - 1)) (bt = 1)"
          by (simp only: replicate_Suc)
        moreover have "feed states (buffer, p) (bt = 1) = (w, emit p b 1)"
          by (simp add: feed_def w_def b_def Let_def)
        ultimately show ?thesis by simp
      qed
      finally show ?thesis .
    qed
  qed
qed


lemma builder_ok_feed: "builder_ok (snd s) \<Longrightarrow> builder_ok (snd (feed states s c))"
  by (simp add: feed_def Let_def builder_ok_emit)

lemma builder_ok_foldl_feed:
  "builder_ok (snd s) \<Longrightarrow> builder_ok (snd (foldl (feed states) s cs))"
  by (induction cs arbitrary: s) (simp_all add: builder_ok_feed)

lemma next_bit: "bt = 0 \<or> bt = 1 \<Longrightarrow>
   ((bt + 1) mod 2 = 0 \<or> (bt + 1) mod 2 = 1) \<and> (((bt + 1) mod 2 = 1) = (\<not> bt = (1::int)))"
  by auto

lemma read_runs_fold:
  "table_complete states \<Longrightarrow> bt = 0 \<or> bt = 1 \<Longrightarrow> builder_ok (snd s) \<Longrightarrow>
     read_runs states bt rs s = Inr (foldl (feed states) s (expand (bt = 1) rs))"
proof (induction rs arbitrary: bt s)
  case Nil
  show ?case by simp
next
  case (Cons run rs)
  let ?s1 = "foldl (feed states) s (replicate (nat run) (bt = 1))"
  have 1: "read_while states bt run s = Inr ?s1"
    by (rule read_while_fold [OF Cons.prems])
  have ok1: "builder_ok (snd ?s1)"
    by (rule builder_ok_foldl_feed [OF Cons.prems(3)])
  from next_bit [OF Cons.prems(2)]
  have nb: "(bt + 1) mod 2 = 0 \<or> (bt + 1) mod 2 = 1" and ne: "((bt + 1) mod 2 = 1) = (\<not> bt = 1)"
    by blast+
  have "read_runs states ((bt + 1) mod 2) rs ?s1
      = Inr (foldl (feed states) ?s1 (expand ((bt + 1) mod 2 = 1) rs))"
    by (rule Cons.IH [OF Cons.prems(1) nb ok1])
  with 1 ne show ?case by simp
qed

lemma read_drain_stop: "\<not> 0 < buffer \<Longrightarrow> read_drain states (buffer, p) = Inr p"
  by (simp add: read_drain.simps)

lemma read_drain_step:
  "0 < buffer \<Longrightarrow> states ((2 * buffer) mod 32) = Some b \<Longrightarrow>
     read_drain states (buffer, p) = read_drain states ((2 * buffer) mod 32, insert_bit p b 1)"
  by (subst read_drain.simps) (simp only: and_30_eq Let_def if_True option.case)

lemma read_drain_total:
  "table_complete states \<Longrightarrow> \<exists>q. read_drain states s = Inr q"
proof (induction states s rule: read_drain.induct)
  case (1 states buffer p)
  show ?case
  proof (cases "0 < buffer")
    case False
    then show ?thesis by (simp add: read_drain_stop)
  next
    case True
    let ?w = "(2 * buffer) mod 32"
    have look: "states ?w = Some (the (states ?w))"
      by (rule table_completeD [OF 1(2)]) simp_all
    have "\<exists>q. read_drain states (?w, insert_bit p (the (states ?w)) 1) = Inr q"
      by (rule 1(1) [OF True and_30_eq [symmetric] look 1(2)])
    then show ?thesis
      by (simp only: read_drain_step [of buffer states "the (states ?w)" p, OF True look])
  qed
qed

lemma read_total:
  assumes "table_complete states"
  shows "\<exists>q. read pattern states = Inr q"
proof -
  have ok: "builder_ok (snd (0::int, Pattern_init (offset pattern - 2)))"
    by (simp add: builder_ok_init)
  have "\<exists>s. read_runs states 1 (runs pattern) (0, Pattern_init (offset pattern - 2)) = Inr s"
    using read_runs_fold [OF assms _ ok, of 1] by simp
  then obtain s where s: "read_runs states 1 (runs pattern) (0, Pattern_init (offset pattern - 2)) = Inr s"
    by blast
  from read_drain_total [OF assms, of s] obtain q where "read_drain states s = Inr q" by blast
  with s show ?thesis by (simp add: read_def)
qed

section \<open>The run-skip shortcut\<close>

lemma read_naive_while_step:
  "0 < run \<Longrightarrow> (push_bit 1 (buffer::int) OR bt) AND 31 = w \<Longrightarrow> states w = Some b \<Longrightarrow>
     read_naive_while states bt run (buffer, p) = read_naive_while states bt (run - 1) (w, emit p b 1)"
  by (subst read_naive_while.simps) (simp add: Let_def emit_def)

lemma read_naive_while_stop: "\<not> 0 < run \<Longrightarrow> read_naive_while states bt run s = Inr s"
  by (cases s) (simp add: read_naive_while.simps)

lemma read_naive_while_fold:
  "table_complete states \<Longrightarrow> bt = 0 \<or> bt = 1 \<Longrightarrow>
     read_naive_while states bt run s = Inr (foldl (feed states) s (replicate (nat run) (bt = 1)))"
proof (induction states bt run s rule: read_naive_while.induct)
  case (1 states bt run buffer p)
  define w where "w = (2 * buffer + of_bool (bt = 1)) mod 32"
  define b where "b = the (states w)"
  have w_eq: "(push_bit 1 buffer OR bt) AND 31 = w"
    using 1(3) by (simp only: w_def shift_in_eq)
  have w_range: "0 \<le> w" "w < 32" by (simp_all add: w_def)
  have look: "states w = Some b"
    using table_completeD [OF 1(2) w_range] by (simp add: b_def)
  show ?case
  proof (cases "0 < run")
    case False
    then show ?thesis by (simp add: read_naive_while_stop)
  next
    case True
    have "read_naive_while states bt run (buffer, p)
        = read_naive_while states bt (run - 1) (w, emit p b 1)"
      by (rule read_naive_while_step [of run buffer bt w states b p, OF True w_eq look])
    also have "\<dots> = Inr (foldl (feed states) (w, emit p b 1) (replicate (nat (run - 1)) (bt = 1)))"
      by (rule 1(1) [where x = w and ?x2.0 = b and xa = "insert_bit p b 1"])
        (use True look w_eq 1(2,3) in \<open>simp_all add: emit_def Let_def\<close>)
    also have "foldl (feed states) (w, emit p b 1) (replicate (nat (run - 1)) (bt = 1))
        = foldl (feed states) (buffer, p) (replicate (nat run) (bt = 1))"
    proof -
      have "nat run = Suc (nat (run - 1))" using True by simp
      then have "replicate (nat run) (bt = 1) = (bt = 1) # replicate (nat (run - 1)) (bt = 1)"
        by (simp only: replicate_Suc)
      moreover have "feed states (buffer, p) (bt = 1) = (w, emit p b 1)"
        by (simp add: feed_def w_def b_def Let_def)
      ultimately show ?thesis by simp
    qed
    finally show ?thesis .
  qed
qed

lemma read_naive_runs_fold:
  "table_complete states \<Longrightarrow> bt = 0 \<or> bt = 1 \<Longrightarrow>
     read_naive_runs states bt rs s = Inr (foldl (feed states) s (expand (bt = 1) rs))"
proof (induction rs arbitrary: bt s)
  case Nil
  show ?case by simp
next
  case (Cons run rs)
  let ?s1 = "foldl (feed states) s (replicate (nat run) (bt = 1))"
  have 1: "read_naive_while states bt run s = Inr ?s1"
    by (rule read_naive_while_fold [OF Cons.prems])
  from next_bit [OF Cons.prems(2)]
  have nb: "(bt + 1) mod 2 = 0 \<or> (bt + 1) mod 2 = 1" and ne: "((bt + 1) mod 2 = 1) = (\<not> bt = 1)"
    by blast+
  have "read_naive_runs states ((bt + 1) mod 2) rs ?s1
      = Inr (foldl (feed states) ?s1 (expand ((bt + 1) mod 2 = 1) rs))"
    by (rule Cons.IH [OF Cons.prems(1) nb])
  with 1 ne show ?case by simp
qed

text \<open>
  Claim C3. For every pattern and every complete table, \<open>read\<close> with the run-skip
  shortcut returns a pattern, and it is the pattern (same runs, same offset) that the
  bit-by-bit simulation without the shortcut returns.
\<close>

theorem read_skip_equals_naive:
  assumes "table_complete states"
  shows "read p states = read_naive p states \<and> (\<exists>q. read p states = Inr q)"
proof -
  have ok: "builder_ok (snd (0::int, Pattern_init (offset p - 2)))"
    by (simp add: builder_ok_init)
  have "read_runs states 1 (runs p) (0, Pattern_init (offset p - 2))
      = read_naive_runs states 1 (runs p) (0, Pattern_init (offset p - 2))"
    using read_runs_fold [OF assms _ ok, of 1 "runs p"]
      read_naive_runs_fold [OF assms, of 1 "runs p" "(0, Pattern_init (offset p - 2))"]
    by simp
  then have "read p states = read_naive p states"
    by (simp add: read_def read_naive_def)
  with read_total [OF assms, of p] show ?thesis by simp
qed

theorem read_skip_equals_naive_witness:
  "read \<lparr>runs = [7, 9, 1], offset = 0, count = 0\<rparr> calculateStates
     = read_naive \<lparr>runs = [7, 9, 1], offset = 0, count = 0\<rparr> calculateStates
   \<and> read \<lparr>runs = [7, 9, 1], offset = 0, count = 0\<rparr> calculateStates
     = Inr \<lparr>runs = [2, 1, 3, 1, 2], offset = - 1, count = 12\<rparr>"
proof -
  have "read \<lparr>runs = [7, 9, 1], offset = 0, count = 0\<rparr> calculateStates
     = read_naive \<lparr>runs = [7, 9, 1], offset = 0, count = 0\<rparr> calculateStates"
    using read_skip_equals_naive [OF table_complete_calculateStates] by blast
  moreover have "read \<lparr>runs = [7, 9, 1], offset = 0, count = 0\<rparr> calculateStates
     = Inr \<lparr>runs = [2, 1, 3, 1, 2], offset = - 1, count = 12\<rparr>"
    by code_simp
  ultimately show ?thesis by simp
qed

section \<open>Completed patterns\<close>

lemma runs_complete_nonempty: "runs (complete p) \<noteq> []"
  by (auto simp: complete_def)

lemma trimmed_complete: "builder_ok p \<Longrightarrow> trimmed (complete p)"
  by (cases "runs p = []") (auto simp: builder_ok_def trimmed_def complete_def)

lemma trimmed_first_run: "trimmed q \<Longrightarrow> (hd (runs q) = 0 \<longleftrightarrow> no_filled q)"
  by (cases "runs q") (auto simp: trimmed_def no_filled_def cells_def)

lemma read_while_cases:
  "0 < run \<Longrightarrow> (push_bit 1 (buffer::int) OR bt) AND 31 = w \<Longrightarrow>
     read_while states bt run (buffer, p) =
       (case states w of
          None \<Rightarrow> Inl KeyError
        | Some b \<Rightarrow>
            if bt + w = 0 \<or> bt + w = 32 then read_while states bt 0 (w, emit p b run)
            else read_while states bt (run - 1) (w, emit p b 1))"
  by (subst read_while.simps) (simp add: Let_def emit_def split: option.splits)

lemma read_drain_cases:
  "0 < buffer \<Longrightarrow>
     read_drain states (buffer, p) =
       (case states ((2 * buffer) mod 32) of
          None \<Rightarrow> Inl KeyError
        | Some b \<Rightarrow> read_drain states ((2 * buffer) mod 32, insert_bit p b 1))"
  by (subst read_drain.simps) (simp only: and_30_eq Let_def if_True)

lemma read_while_result:
  "(read_while states bt run s = Inl e \<longrightarrow> e = KeyError)
   \<and> (read_while states bt run s = Inr s1 \<longrightarrow> builder_ok (snd s) \<longrightarrow> builder_ok (snd s1))"
proof (induction states bt run s rule: read_while.induct)
  case (1 states bt run buffer p)
  show ?case
  proof (cases "0 < run")
    case False
    then show ?thesis by (auto simp: read_while_stop)
  next
    case True
    define w where "w = (push_bit 1 buffer OR bt) AND 31"
    note unfold = read_while_cases [of run buffer bt w states p, OF True w_def [symmetric]]
    show ?thesis
    proof (cases "states w")
      case None
      with unfold show ?thesis by simp
    next
      case (Some b)
      show ?thesis
      proof (cases "bt + w = 0 \<or> bt + w = 32")
        case skip: True
        with unfold Some have "read_while states bt run (buffer, p) = Inr (w, emit p b run)"
          by (simp add: read_while_stop)
        with True show ?thesis by (auto simp: builder_ok_emit)
      next
        case noskip: False
        with unfold Some
        have eq: "read_while states bt run (buffer, p) = read_while states bt (run - 1) (w, emit p b 1)"
          by simp
        have "(read_while states bt (run - 1) (w, emit p b 1) = Inl e \<longrightarrow> e = KeyError)
          \<and> (read_while states bt (run - 1) (w, emit p b 1) = Inr s1 \<longrightarrow>
               builder_ok (snd (w, emit p b 1)) \<longrightarrow> builder_ok (snd s1))"
          by (rule 1 [where x = w and xa = 1 and ?x2.0 = b and xb = "insert_bit p b 1"])
            (use True noskip Some in \<open>simp_all add: w_def emit_def Let_def\<close>)
        then show ?thesis by (simp add: eq builder_ok_emit)
      qed
    qed
  qed
qed

lemma read_runs_result:
  "(read_runs states bt rs s = Inl e \<longrightarrow> e = KeyError)
   \<and> (read_runs states bt rs s = Inr s1 \<longrightarrow> builder_ok (snd s) \<longrightarrow> builder_ok (snd s1))"
proof (induction rs arbitrary: bt s)
  case Nil
  show ?case by simp
next
  case (Cons run rs)
  show ?case
  proof (cases "read_while states bt run s")
    case (Inl e1)
    with read_while_result [of states bt run s e1] show ?thesis by simp
  next
    case (Inr s2)
    with read_while_result [of states bt run s _ s2] Cons.IH [of "(bt + 1) mod 2" s2]
    show ?thesis by simp
  qed
qed

lemma read_drain_result:
  "(read_drain states s = Inl e \<longrightarrow> e = KeyError)
   \<and> (read_drain states s = Inr q \<longrightarrow> builder_ok (snd s) \<longrightarrow> builder_ok q)"
proof (induction states s rule: read_drain.induct)
  case (1 states buffer p)
  show ?case
  proof (cases "0 < buffer")
    case False
    then show ?thesis by (auto simp: read_drain_stop)
  next
    case True
    let ?w = "(2 * buffer) mod 32"
    note unfold = read_drain_cases [of buffer states p, OF True]
    show ?thesis
    proof (cases "states ?w")
      case None
      with unfold show ?thesis by simp
    next
      case (Some b)
      from 1 [OF True and_30_eq [symmetric] Some]
      show ?thesis by (simp add: unfold Some builder_ok_insert)
    qed
  qed
qed

lemma read_result:
  "(read pattern states = Inl e \<longrightarrow> e = KeyError)
   \<and> (read pattern states = Inr q \<longrightarrow> trimmed q)"
proof (cases "read_runs states 1 (runs pattern) (0, Pattern_init (offset pattern - 2))")
  case (Inl e1)
  with read_runs_result [of states 1 "runs pattern" "(0, Pattern_init (offset pattern - 2))" e1]
  show ?thesis by (simp add: read_def)
next
  case (Inr s)
  with read_runs_result [of states 1 "runs pattern" "(0, Pattern_init (offset pattern - 2))" _ s]
  have ok: "builder_ok (snd s)" by (simp add: builder_ok_init)
  show ?thesis
  proof (cases "read_drain states s")
    case (Inl e2)
    with Inr read_drain_result [of states s e2] show ?thesis by (simp add: read_def)
  next
    case p: (Inr p)
    with read_drain_result [of states s _ p] ok have "builder_ok p" by simp
    with Inr p show ?thesis by (auto simp: read_def trimmed_complete)
  qed
qed

lemma read_trimmed: "read pattern states = Inr q \<Longrightarrow> trimmed q"
  using read_result [of pattern states _ q] by simp

lemma toPattern_loop_ok:
  "toPattern_loop p input = Inr q \<Longrightarrow> builder_ok p \<Longrightarrow> builder_ok q"
  by (induction p input rule: toPattern_loop.induct) (auto simp: builder_ok_insert split: if_splits)

lemma toPattern_trimmed:
  assumes "toPattern input = Inr q"
  shows "trimmed q"
proof -
  from assms obtain p where p: "toPattern_loop (Pattern_init 0) input = Inr p" and q: "q = complete p"
    by (auto simp: toPattern_def split: sum.splits)
  have "builder_ok p" by (rule toPattern_loop_ok [OF p builder_ok_init])
  then show ?thesis by (simp add: q trimmed_complete)
qed

lemma inserts_ok: "\<forall>x \<in> set ins. 0 < snd x \<Longrightarrow> builder_ok (inserts off ins)"
proof (induction ins rule: rev_induct)
  case Nil
  show ?case by (simp add: inserts_Nil builder_ok_init)
next
  case (snoc x ins)
  obtain b steps where x: "x = (b, steps)" by (cases x)
  with snoc show ?case by (simp add: inserts_snoc builder_ok_insert)
qed

lemma solve_loop_no_IndexError:
  "snd (solve_loop n states pattern lines patterns) \<noteq> Inl IndexError"
proof (induction n arbitrary: pattern lines patterns)
  case 0
  show ?case by simp
next
  case (Suc n)
  show ?case
  proof (cases "read pattern states")
    case (Inl e)
    with read_result [of pattern states e] have "e = KeyError" by simp
    with Inl show ?thesis by simp
  next
    case (Inr q)
    then have "runs q \<noteq> []"
      by (auto simp: read_def runs_complete_nonempty split: sum.splits)
    then obtain r rs where r: "runs q = r # rs" by (cases "runs q") auto
    show ?thesis
      using Suc.IH [of q "insert (Tup (offset q # runs q)) lines" "insert (Tup (0 # runs q)) patterns"]
      by (auto simp: Inr r Let_def split: prod.splits)
  qed
qed


lemma trimmed_nonempty: "trimmed q \<Longrightarrow> runs q \<noteq> []"
  by (auto simp: trimmed_def)

lemma solve_no_IndexError: "solve pattern states \<noteq> Inl IndexError"
  by (simp add: solve_def solve_counted_def solve_init_def Let_def solve_loop_no_IndexError)

text \<open>
  Claim C10. Every pattern returned by \<open>complete()\<close> has a non-empty list of runs. After
  inserts with positive steps, and so for every pattern that \<open>read\<close> or \<open>toPattern\<close>
  returns, the first run is zero if and only if the pattern has no filled cell; \<open>read\<close>
  returns a pattern for every complete table, and \<open>solve\<close> never raises \<open>IndexError\<close> at
  \<open>pattern.runs[0]\<close>.
\<close>

theorem completed_first_run:
  "runs (complete p) \<noteq> []
   \<and> ((\<forall>x \<in> set ins. 0 < snd x) \<longrightarrow>
        (hd (runs (build off ins)) = 0 \<longleftrightarrow> no_filled (build off ins)))
   \<and> (read pattern states = Inr q \<longrightarrow> runs q \<noteq> [] \<and> (hd (runs q) = 0 \<longleftrightarrow> no_filled q))
   \<and> (toPattern input = Inr q1 \<longrightarrow> runs q1 \<noteq> [] \<and> (hd (runs q1) = 0 \<longleftrightarrow> no_filled q1))
   \<and> (table_complete states \<longrightarrow> (\<exists>q. read pattern states = Inr q))
   \<and> solve pattern states \<noteq> Inl IndexError"
proof -
  have "hd (runs (build off ins)) = 0 \<longleftrightarrow> no_filled (build off ins)"
    if "\<forall>x \<in> set ins. 0 < snd x"
    using inserts_ok [OF that, of off] by (simp add: build_def trimmed_complete trimmed_first_run)
  moreover have "runs q \<noteq> [] \<and> (hd (runs q) = 0 \<longleftrightarrow> no_filled q)"
    if "read pattern states = Inr q"
    using read_trimmed [OF that] by (simp add: trimmed_nonempty trimmed_first_run)
  moreover have "runs q1 \<noteq> [] \<and> (hd (runs q1) = 0 \<longleftrightarrow> no_filled q1)"
    if "toPattern input = Inr q1"
    using toPattern_trimmed [OF that] by (simp add: trimmed_nonempty trimmed_first_run)
  moreover have "\<exists>q. read pattern states = Inr q" if "table_complete states"
    using that by (rule read_total)
  ultimately show ?thesis
    using runs_complete_nonempty [of p] solve_no_IndexError [of pattern states] by blast
qed

theorem completed_first_run_witness:
  "read \<lparr>runs = [1], offset = 0, count = 0\<rparr> calculateStates
     = Inr \<lparr>runs = [0], offset = - 1, count = 0\<rparr>
   \<and> no_filled \<lparr>runs = [0], offset = - 1, count = 0\<rparr>
   \<and> toPattern ''.#.'' = Inr \<lparr>runs = [1], offset = 0, count = 1\<rparr>
   \<and> \<not> no_filled \<lparr>runs = [1], offset = 0, count = 1\<rparr>
   \<and> \<not> no_filled (build 0 [(True, 2), (False, 3)])"
proof -
  note inst = completed_first_run [of "Pattern_init 0" "[(True, 2), (False, 3)]" 0
      "\<lparr>runs = [1], offset = 0, count = 0\<rparr>" calculateStates
      "\<lparr>runs = [0], offset = - 1, count = 0\<rparr>" "''.#.''"
      "\<lparr>runs = [1], offset = 0, count = 1\<rparr>"]
  have r: "read \<lparr>runs = [1], offset = 0, count = 0\<rparr> calculateStates
     = Inr \<lparr>runs = [0], offset = - 1, count = 0\<rparr>"
    by code_simp
  have t: "toPattern ''.#.'' = Inr \<lparr>runs = [1], offset = 0, count = 1\<rparr>"
    by (simp add: toPattern_def insert_eval)
  have b: "\<forall>x \<in> set [(True, 2), (False, 3::int)]. 0 < snd x" by simp
  have h: "hd (runs (build 0 [(True, 2), (False, 3)])) \<noteq> 0"
    by (simp add: build_def inserts_def insert_eval)
  from inst r have "no_filled \<lparr>runs = [0], offset = - 1, count = 0\<rparr>" by simp
  moreover from inst t have "\<not> no_filled \<lparr>runs = [1], offset = 0, count = 1\<rparr>" by simp
  moreover from inst b h have "\<not> no_filled (build 0 [(True, 2), (False, 3)])" by blast
  ultimately show ?thesis using r t by simp
qed

section \<open>The blank line\<close>

lemma feed_blank:
  "\<not> the (states 0) \<Longrightarrow> runs p = [] \<Longrightarrow> count p = 0 \<Longrightarrow>
     foldl (feed states) (0, p) (replicate n False) = (0, p\<lparr>offset := offset p + int n\<rparr>)"
proof (induction n arbitrary: p)
  case 0
  show ?case by simp
next
  case (Suc n)
  have "feed states (0, p) False = (0, p\<lparr>offset := offset p + 1\<rparr>)"
    using Suc.prems by (simp add: feed_def emit_blank_start)
  moreover have "foldl (feed states) (0, p\<lparr>offset := offset p + 1\<rparr>) (replicate n False)
      = (0, p\<lparr>offset := offset p + 1\<rparr>\<lparr>offset := offset (p\<lparr>offset := offset p + 1\<rparr>) + int n\<rparr>)"
    by (rule Suc.IH) (use Suc.prems in simp_all)
  ultimately show ?case by (simp add: add.assoc)
qed

lemma no_filled_replicate:
  "no_filled p \<Longrightarrow> expand True (runs p) = replicate (length (cells p)) False"
  unfolding no_filled_def cells_def
  by (rule replicate_length_same [symmetric]) auto

text \<open>
  Claim C7. The table maps the all-blank window 0 to blank, and for every pattern without
  filled cells \<open>read\<close> returns a pattern without filled cells: its single run is zero.
\<close>

theorem blank_line_absorbing:
  "calculateStates 0 = Some False
   \<and> (no_filled p \<longrightarrow> (\<exists>q. read p calculateStates = Inr q \<and> no_filled q \<and> runs q = [0]))"
proof -
  have z: "calculateStates 0 = Some False"
    by (simp add: calculateStates_eq filled_windows_def)
  have "\<exists>q. read p calculateStates = Inr q \<and> no_filled q \<and> runs q = [0]" if nf: "no_filled p"
  proof -
    let ?p0 = "Pattern_init (offset p - 2)"
    let ?n = "length (cells p)"
    have "read_runs calculateStates 1 (runs p) (0, ?p0)
        = Inr (foldl (feed calculateStates) (0, ?p0) (expand True (runs p)))"
      using read_runs_fold [OF table_complete_calculateStates, of 1 "(0, ?p0)" "runs p"]
      by (simp add: builder_ok_init)
    also have "foldl (feed calculateStates) (0, ?p0) (expand True (runs p))
        = (0, ?p0\<lparr>offset := offset ?p0 + int ?n\<rparr>)"
      unfolding no_filled_replicate [OF nf]
      by (rule feed_blank) (simp_all add: z Pattern_init_def)
    finally have "read p calculateStates = Inr (complete (?p0\<lparr>offset := offset ?p0 + int ?n\<rparr>))"
      by (simp add: read_def read_drain_stop)
    then show ?thesis
      by (simp add: complete_def Pattern_init_def no_filled_def cells_def)
  qed
  with z show ?thesis by blast
qed

theorem blank_line_absorbing_witness:
  "no_filled \<lparr>runs = [0, 3], offset = 5, count = 0\<rparr>
   \<and> read \<lparr>runs = [0, 3], offset = 5, count = 0\<rparr> calculateStates
       = Inr \<lparr>runs = [0], offset = 6, count = 0\<rparr>"
proof -
  have nf: "no_filled \<lparr>runs = [0, 3], offset = 5, count = 0\<rparr>"
    by (simp add: no_filled_def cells_def)
  with blank_line_absorbing [of "\<lparr>runs = [0, 3], offset = 5, count = 0\<rparr>"]
  obtain q where "read \<lparr>runs = [0, 3], offset = 5, count = 0\<rparr> calculateStates = Inr q"
    and "runs q = [0]" by blast
  moreover have "read \<lparr>runs = [0, 3], offset = 5, count = 0\<rparr> calculateStates
       = Inr \<lparr>runs = [0], offset = 6, count = 0\<rparr>"
    by code_simp
  ultimately show ?thesis using nf by simp
qed

section \<open>The loop of solve\<close>

lemma solve_loop_count: "fst (solve_loop n states pattern lines patterns) \<le> n"
proof (induction n arbitrary: pattern lines patterns)
  case 0
  show ?case by simp
next
  case (Suc n)
  show ?case
  proof (cases "read pattern states")
    case (Inl e)
    then show ?thesis by simp
  next
    case (Inr q)
    show ?thesis
      using Suc.IH [of q "insert (Tup (offset q # runs q)) lines" "insert (Tup (0 # runs q)) patterns"]
      by (auto simp: Inr Let_def split: prod.splits list.splits)
  qed
qed

lemma solve_loop_total:
  assumes tc: "table_complete states"
  shows "\<exists>l. snd (solve_loop n states pattern lines patterns) = Inr l"
proof (induction n arbitrary: pattern lines patterns)
  case 0
  show ?case by simp
next
  case (Suc n)
  from read_total [OF tc, of pattern] obtain q where q: "read pattern states = Inr q" by blast
  from read_trimmed [OF q] obtain r rs where r: "runs q = r # rs"
    by (cases "runs q") (auto simp: trimmed_def)
  show ?case
    using Suc.IH [of q "insert (Tup (offset q # runs q)) lines" "insert (Tup (0 # runs q)) patterns"]
    by (auto simp: q r Let_def split: prod.splits)
qed

lemma upto_Suc: "{1..Suc j} = insert (Suc j) {1..j}"
  by auto

lemma seen_lines_Suc:
  assumes "generation states p (Suc j) = Inr q"
  shows "seen_lines states p (Suc j) = insert (Tup (offset q # runs q)) (seen_lines states p j)"
proof -
  have "line_of (generation states p (Suc j)) = {Tup (offset q # runs q)}"
    by (simp only: assms line_of_def sum.case)
  then show ?thesis
    unfolding seen_lines_def upto_Suc UN_insert by blast
qed

lemma seen_patterns_Suc:
  assumes "generation states p (Suc j) = Inr q"
  shows "seen_patterns states p (Suc j) = insert (Tup (0 # runs q)) (seen_patterns states p j)"
proof -
  have "shape_of (generation states p (Suc j)) = {Tup (0 # runs q)}"
    by (simp only: assms shape_of_def sum.case)
  then show ?thesis
    unfolding seen_patterns_def upto_Suc UN_insert by blast
qed

lemma solve_loop_other:
  assumes tc: "table_complete states"
  shows "generation states p j = Inr cur \<Longrightarrow>
     snd (solve_loop n states cur (seen_lines states p j) (seen_patterns states p j)) = Inr Other
       \<longleftrightarrow> (\<forall>k. j < k \<and> k \<le> j + n \<longrightarrow> \<not> triggers states p k)"
proof (induction n arbitrary: j cur)
  case 0
  show ?case by auto
next
  case (Suc n)
  from read_total [OF tc, of cur] obtain q where q: "read cur states = Inr q" by blast
  from read_trimmed [OF q] obtain r rs where r: "runs q = r # rs"
    by (cases "runs q") (auto simp: trimmed_def)
  from Suc.prems q have g: "generation states p (Suc j) = Inr q" by simp
  have trig: "triggers states p (Suc j) \<longleftrightarrow>
      r = 0 \<or> Tup (offset q # runs q) \<in> seen_lines states p j
        \<or> Tup (0 # runs q) \<in> seen_patterns states p j"
    by (simp add: triggers_def g r del: generation.simps)
  show ?case
  proof (cases "triggers states p (Suc j)")
    case True
    then have "snd (solve_loop (Suc n) states cur (seen_lines states p j) (seen_patterns states p j))
        \<noteq> Inr Other"
      using trig by (auto simp: q r Let_def split: prod.splits)
    moreover from True have "\<not> (\<forall>k. j < k \<and> k \<le> j + Suc n \<longrightarrow> \<not> triggers states p k)"
      by (intro notI) (auto dest: spec [of _ "Suc j"])
    ultimately show ?thesis by blast
  next
    case False
    with trig have "snd (solve_loop (Suc n) states cur (seen_lines states p j) (seen_patterns states p j))
        = snd (solve_loop n states q (seen_lines states p (Suc j)) (seen_patterns states p (Suc j)))"
      by (auto simp: q r Let_def seen_lines_Suc [OF g] seen_patterns_Suc [OF g] split: prod.splits)
    also have "\<dots> = Inr Other \<longleftrightarrow> (\<forall>k. Suc j < k \<and> k \<le> Suc j + n \<longrightarrow> \<not> triggers states p k)"
      by (rule Suc.IH [OF g])
    also have "\<dots> \<longleftrightarrow> (\<forall>k. j < k \<and> k \<le> j + Suc n \<longrightarrow> \<not> triggers states p k)"
    proof
      assume later: "\<forall>k. Suc j < k \<and> k \<le> Suc j + n \<longrightarrow> \<not> triggers states p k"
      show "\<forall>k. j < k \<and> k \<le> j + Suc n \<longrightarrow> \<not> triggers states p k"
      proof (intro allI impI)
        fix k
        assume "j < k \<and> k \<le> j + Suc n"
        then have "k = Suc j \<or> (Suc j < k \<and> k \<le> Suc j + n)" by arith
        with later False show "\<not> triggers states p k" by blast
      qed
    next
      assume all: "\<forall>k. j < k \<and> k \<le> j + Suc n \<longrightarrow> \<not> triggers states p k"
      show "\<forall>k. Suc j < k \<and> k \<le> Suc j + n \<longrightarrow> \<not> triggers states p k"
      proof (intro allI impI)
        fix k
        assume "Suc j < k \<and> k \<le> Suc j + n"
        then have "j < k \<and> k \<le> j + Suc n" by arith
        with all show "\<not> triggers states p k" by blast
      qed
    qed
    finally show ?thesis .
  qed
qed

lemma seen_lines_0: "seen_lines states p 0 = fst (solve_init p)"
  by (simp add: seen_lines_def)

lemma seen_patterns_0: "seen_patterns states p 0 = snd (solve_init p)"
  by (simp add: seen_patterns_def)

text \<open>
  Claim C6. \<open>solve\<close> calls \<open>read\<close> at most 100 times. For every complete table it returns
  one of the four labels, and the label is \<open>other\<close> exactly when none of the three
  conditions holds at any of the generations 1 to 100.
\<close>

theorem solve_bounded:
  "fst (solve_counted p states) \<le> 100
   \<and> (table_complete states \<longrightarrow>
        (\<exists>l. solve p states = Inr l \<and> l \<in> {Vanishing, Blinking, Gliding, Other})
        \<and> (solve p states = Inr Other \<longleftrightarrow> (\<forall>k \<in> {1..100}. \<not> triggers states p k)))"
proof -
  have eq: "solve_counted p states
      = solve_loop 100 states p (seen_lines states p 0) (seen_patterns states p 0)"
    by (simp add: solve_counted_def seen_lines_0 seen_patterns_0 split: prod.splits)
  have 1: "fst (solve_counted p states) \<le> 100"
    unfolding eq by (rule solve_loop_count)
  have 2: "\<exists>l. solve p states = Inr l \<and> l \<in> {Vanishing, Blinking, Gliding, Other}"
    if tc: "table_complete states"
  proof -
    from solve_loop_total [OF tc] obtain l where "solve p states = Inr l"
      unfolding solve_def eq by blast
    moreover have "l \<in> {Vanishing, Blinking, Gliding, Other}" by (cases l) simp_all
    ultimately show ?thesis by blast
  qed
  have 3: "solve p states = Inr Other \<longleftrightarrow> (\<forall>k \<in> {1..100}. \<not> triggers states p k)"
    if tc: "table_complete states"
  proof -
    have "solve p states = Inr Other \<longleftrightarrow> (\<forall>k. 0 < k \<and> k \<le> 0 + 100 \<longrightarrow> \<not> triggers states p k)"
      unfolding solve_def eq by (rule solve_loop_other [OF tc]) simp
    also have "\<dots> \<longleftrightarrow> (\<forall>k \<in> {1..100}. \<not> triggers states p k)"
      by (auto simp: Suc_le_eq)
    finally show ?thesis .
  qed
  from 1 2 3 show ?thesis by blast
qed

theorem solve_bounded_witness:
  "solve \<lparr>runs = [1, 1, 3], offset = 0, count = 0\<rparr> calculateStates = Inr Gliding
   \<and> fst (solve_counted \<lparr>runs = [1, 1, 3], offset = 0, count = 0\<rparr> calculateStates) \<le> 100
   \<and> triggers calculateStates \<lparr>runs = [1, 1, 3], offset = 0, count = 0\<rparr> 2"
proof -
  let ?p = "\<lparr>runs = [1, 1, 3], offset = 0, count = 0\<rparr>"
  note inst = solve_bounded [of ?p calculateStates]
  have g: "solve ?p calculateStates = Inr Gliding" by code_simp
  have t: "triggers calculateStates ?p 2" by code_simp
  from inst table_complete_calculateStates
  have "solve ?p calculateStates = Inr Other \<longleftrightarrow> (\<forall>k \<in> {1..100}. \<not> triggers calculateStates ?p k)"
    by blast
  with g have "\<not> (\<forall>k \<in> {1..100}. \<not> triggers calculateStates ?p k)" by simp
  with inst g t show ?thesis by blast
qed

section \<open>The cells of a pattern under construction\<close>

lemma expand_snoc:
  "expand c (rs @ [r]) = expand c rs @ replicate (nat r) (if even (length rs) then c else \<not> c)"
  by (induction rs arbitrary: c) auto

lemma bcells_blank: "runs p = [] \<Longrightarrow> count p = 0 \<Longrightarrow> bcells p = []"
  by (simp add: bcells_def)

lemma replicate_Suc_snoc: "0 \<le> n \<Longrightarrow> replicate (nat (n + 1)) x = replicate (nat n) x @ [x]"
  by (simp add: nat_add_distrib replicate_append_same)

lemma bcells_insert:
  assumes ok: "builder_ok p" and started: "\<not> (runs p = [] \<and> count p = 0 \<and> \<not> b)"
  shows "bcells (insert_bit p b 1) = bcells p @ [b]"
proof (cases "even (length (runs p)) = b")
  case True
  then have "insert_bit p b 1 = p\<lparr>count := count p + 1\<rparr>"
    using started by (auto simp: insert_bit_def Let_def even_iff_mod_2_eq_zero)
  moreover from ok have "0 \<le> count p" by (simp add: builder_ok_def)
  ultimately show ?thesis
    using True by (auto simp: bcells_def expand_snoc replicate_Suc_snoc)
next
  case False
  then have "insert_bit p b 1 = p\<lparr>runs := runs p @ [count p], count := 1\<rparr>"
    using started by (auto simp: insert_bit_def Let_def even_iff_mod_2_eq_zero)
  then show ?thesis
    using False expand_snoc [of True "runs p @ [count p]" 1]
    by (auto simp: bcells_def)
qed

lemma emit_cell:
  assumes ok: "builder_ok p"
  shows "bend (emit p b 1) = bend p + 1
    \<and> (\<forall>i. bcell_at (emit p b 1) i = (if i = bend p then b else bcell_at p i))"
proof (cases "runs p = [] \<and> count p = 0 \<and> \<not> b")
  case True
  then have e: "emit p b 1 = p\<lparr>offset := offset p + 1\<rparr>"
    by (simp add: emit_blank_start)
  show ?thesis
    unfolding e using True by (auto simp: bend_def bcell_at_def bcells_def)
next
  case False
  have e: "emit p b 1 = insert_bit p b 1"
    using emit_started [OF ok _ False, of 1] by simp
  have c: "bcells (insert_bit p b 1) = bcells p @ [b]"
    by (rule bcells_insert [OF ok False])
  have o: "offset (insert_bit p b 1) = offset p"
    by (rule offset_insert_bit)
  show ?thesis
    unfolding e bend_def bcell_at_def c o
    by (auto simp: nth_append nat_less_iff nat_eq_iff)
qed

lemma emit_blank_after:
  assumes ok: "builder_ok p" and blank: "runs (emit p b 1) = [] \<and> count (emit p b 1) = 0"
  shows "runs p = [] \<and> count p = 0 \<and> \<not> b"
proof (rule ccontr)
  assume "\<not> (runs p = [] \<and> count p = 0 \<and> \<not> b)"
  from emit_started [OF ok _ this, of 1] blank show False by simp
qed

lemma cell_at_complete:
  assumes ok: "builder_ok p"
  shows "cell_at (complete p) i = bcell_at p i"
proof (cases "even (length (runs p))")
  case True
  then show ?thesis
    by (simp add: complete_def cell_at_def bcell_at_def bend_def cells_def bcells_def
        even_iff_mod_2_eq_zero)
next
  case False
  then have c: "complete p = p"
    by (simp add: complete_def even_iff_mod_2_eq_zero)
  from False have b: "bcells p = cells p @ replicate (nat (count p)) False"
    by (simp add: bcells_def cells_def expand_snoc)
  show ?thesis
    unfolding c cell_at_def bcell_at_def bend_def b
    by (auto simp: nth_append nat_less_iff)
qed


section \<open>Windows\<close>

lemma window_range: "0 \<le> window f i \<and> window f i < 32"
  by (simp add: window_def split: split_of_bool)

lemma window_shift:
  "window f (i + 1) = (2 * window f i + of_bool (f (i + 3))) mod 32"
proof -
  have "window f (i + 1) = 2 * (window f i - 16 * of_bool (f (i - 2))) + of_bool (f (i + 3))"
    by (simp add: window_def add.commute)
  also have "\<dots> = (2 * window f i + of_bool (f (i + 3))) mod 32"
    by (simp add: window_def split: split_of_bool)
  finally show ?thesis .
qed

lemma window_next:
  "window f e = (2 * window f (e - 1) + of_bool (f (e + 2))) mod 32"
  using window_shift [of f "e - 1"] by (simp add: add.commute)

lemma Pattern_init_sel:
  "runs (Pattern_init x) = []" "offset (Pattern_init x) = x" "count (Pattern_init x) = 0"
  by (simp_all add: Pattern_init_def)

lemma window_blank:
  "\<not> f (i - 2) \<Longrightarrow> \<not> f (i - 1) \<Longrightarrow> \<not> f i \<Longrightarrow> \<not> f (i + 1) \<Longrightarrow> \<not> f (i + 2) \<Longrightarrow>
     window f i = 0"
  by (simp add: window_def)

lemma window_zero:
  "window f i = 0 \<Longrightarrow> \<not> f (i - 2) \<and> \<not> f (i - 1) \<and> \<not> f i \<and> \<not> f (i + 1) \<and> \<not> f (i + 2)"
  by (cases "f (i - 2)"; cases "f (i - 1)"; cases "f i"; cases "f (i + 1)"; cases "f (i + 2)";
      simp add: window_def)

lemma next_cell_filled:
  "next_cell calculateStates f i = (window f i \<in> filled_windows)"
  using window_range [of f i] by (simp add: next_cell_def calculateStates_eq)

lemma table_window:
  "the (calculateStates (window f i)) = next_cell calculateStates f i"
  using window_range [of f i] by (simp add: next_cell_def calculateStates_eq)

lemma cell_before: "i < offset p \<Longrightarrow> \<not> cell_at p i"
  by (simp add: cell_at_def)

lemma cell_after: "offset p + int (length (cells p)) \<le> i \<Longrightarrow> \<not> cell_at p i"
  by (simp add: cell_at_def)

lemma cell_nth: "k < length (cells p) \<Longrightarrow> cell_at p (offset p + int k) = cells p ! k"
  by (simp add: cell_at_def)

lemma next_cell_before:
  "i < offset p - 2 \<Longrightarrow> \<not> next_cell calculateStates (cell_at p) i"
proof -
  assume "i < offset p - 2"
  then have "window (cell_at p) i = 0"
    by (intro window_blank cell_before) simp_all
  then show ?thesis by (simp add: next_cell_filled filled_windows_def)
qed

lemma quiet_step:
  "w \<in> quiet_buffers \<Longrightarrow> (2 * w + of_bool c) mod 32 \<notin> filled_windows \<Longrightarrow>
     (2 * w + of_bool c) mod 32 \<in> quiet_buffers"
  by (cases c) (auto simp: quiet_buffers_def filled_windows_def)

section \<open>The loop over the runs\<close>

lemma reading_start: "reading p (offset p - 2) (0, Pattern_init (offset p - 2))"
proof -
  have "window (cell_at p) (offset p - 2 - 1) = 0"
    by (intro window_blank cell_before) simp_all
  moreover have "bcells (Pattern_init (offset p - 2)) = []"
    by (simp add: bcells_blank Pattern_init_def)
  ultimately show ?thesis
    using builder_ok_init [of "offset p - 2"]
    by (auto simp: reading_def bend_def bcell_at_def quiet_buffers_def next_cell_before
        Pattern_init_sel)
qed

lemma reading_feed:
  assumes r: "reading p e s" and c: "cell_at p (e + 2) = c"
  shows "reading p (e + 1) (feed calculateStates s c)"
proof -
  obtain buf pb where s: "s = (buf, pb)" by (cases s)
  let ?f = "cell_at p"
  define w where "w = (2 * buf + of_bool c) mod 32"
  from r have buf: "buf = window ?f (e - 1)" and ok: "builder_ok pb" and e: "bend pb = e"
    and cellsp: "\<And>i. bcell_at pb i = (i < e \<and> next_cell calculateStates ?f i)"
    and quiet: "runs pb = [] \<and> count pb = 0 \<Longrightarrow> buf \<in> quiet_buffers"
    by (auto simp: reading_def s)
  have w: "w = window ?f e"
    unfolding w_def buf c [symmetric] by (rule window_next [symmetric])
  define b where "b = the (calculateStates w)"
  have b: "b = next_cell calculateStates ?f e"
    by (simp add: b_def w table_window)
  have fd: "feed calculateStates s c = (w, emit pb b 1)"
    by (simp add: feed_def s w_def b_def Let_def)
  from emit_cell [OF ok, of b]
  have e1: "bend (emit pb b 1) = e + 1"
    and c1: "\<And>i. bcell_at (emit pb b 1) i = (if i = e then b else bcell_at pb i)"
    by (simp_all add: e)
  have "bcell_at (emit pb b 1) i = (i < e + 1 \<and> next_cell calculateStates ?f i)" for i
    using c1 [of i] cellsp [of i] b by auto
  moreover have "w \<in> quiet_buffers" if "runs (emit pb b 1) = [] \<and> count (emit pb b 1) = 0"
  proof -
    from emit_blank_after [OF ok that] have blank: "runs pb = [] \<and> count pb = 0" and nb: "\<not> b"
      by simp_all
    from nb have "w \<notin> filled_windows" by (simp add: b w next_cell_filled)
    with quiet [OF blank] show ?thesis unfolding w_def by (rule quiet_step)
  qed
  ultimately show ?thesis
    unfolding reading_def fd using w e1 builder_ok_emit [OF ok, of 1 b] by simp
qed

lemma reading_take:
  "k \<le> length (cells p) \<Longrightarrow>
     reading p (offset p - 2 + int k)
       (foldl (feed calculateStates) (0, Pattern_init (offset p - 2)) (take k (cells p)))"
proof (induction k)
  case 0
  show ?case using reading_start [of p] by simp
next
  case (Suc k)
  then have k: "k < length (cells p)" by simp
  let ?s = "foldl (feed calculateStates) (0, Pattern_init (offset p - 2)) (take k (cells p))"
  from Suc have r: "reading p (offset p - 2 + int k) ?s" by simp
  have c: "cell_at p (offset p - 2 + int k + 2) = cells p ! k"
    using cell_nth [OF k] by (simp add: add.commute)
  from reading_feed [OF r c]
  show ?case by (simp add: take_Suc_conv_app_nth [OF k] add.assoc)
qed

section \<open>The loop that drains the buffer\<close>

lemma bcell_at_blank: "runs p = [] \<Longrightarrow> count p = 0 \<Longrightarrow> \<not> bcell_at p i"
  by (simp add: bcell_at_def bend_def bcells_blank)

lemma bend_blank: "runs p = [] \<Longrightarrow> count p = 0 \<Longrightarrow> bend p = offset p"
  by (simp add: bend_def bcells_blank)

lemma draining_start:
  assumes r: "reading p e s" and after: "\<forall>j. e + 2 \<le> j \<longrightarrow> \<not> cell_at p j"
  shows "draining p e s"
proof (cases "runs (snd s) = [] \<and> count (snd s) = 0")
  case True
  from r have cellsp: "\<And>i. bcell_at (snd s) i = (i < e \<and> next_cell calculateStates (cell_at p) i)"
    by (simp add: reading_def)
  have "\<not> next_cell calculateStates (cell_at p) i" if "i < e" for i
    using cellsp [of i] that True by (simp add: bcell_at_blank)
  moreover from r True have "offset (snd s) = e"
    by (simp add: reading_def bend_blank)
  ultimately show ?thesis
    using r after True by (auto simp: draining_def reading_def)
next
  case False
  with r after show ?thesis by (auto simp: draining_def reading_def)
qed

lemma quiet_drain:
  "w \<in> quiet_buffers \<Longrightarrow> 0 < w \<Longrightarrow>
     (w = 5 \<and> (2 * w) mod 32 \<in> filled_windows)
     \<or> (w \<noteq> 5 \<and> (2 * w) mod 32 \<notin> filled_windows \<and> (2 * w) mod 32 \<in> quiet_buffers
          \<and> (2 * w) mod 32 \<noteq> 5)"
  by (auto simp: quiet_buffers_def filled_windows_def)

lemma draining_step:
  assumes d: "draining p e (buf, pb)" and pos: "0 < buf"
  shows "draining p (e + 1)
    ((2 * buf) mod 32, insert_bit pb (the (calculateStates ((2 * buf) mod 32))) 1)"
proof -
  let ?f = "cell_at p"
  let ?out = "next_cell calculateStates ?f"
  define w where "w = (2 * buf) mod 32"
  define b where "b = the (calculateStates w)"
  from d have buf: "buf = window ?f (e - 1)" and ok: "builder_ok pb"
    and after: "\<And>j. e + 2 \<le> j \<Longrightarrow> \<not> ?f j"
    by (simp_all add: draining_def)
  have w: "w = window ?f e"
    using window_next [of ?f e] after [of "e + 2"] by (simp add: w_def buf)
  have b: "b = ?out e"
    by (simp add: b_def w table_window)
  have after1: "\<forall>j. e + 1 + 2 \<le> j \<longrightarrow> \<not> ?f j"
    using after by simp
  have ok1: "builder_ok (insert_bit pb b 1)"
    using ok by (simp add: builder_ok_insert)
  show ?thesis
  proof (cases "runs pb = [] \<and> count pb = 0")
    case blank: True
    with d have before: "\<And>i. i < e \<Longrightarrow> \<not> ?out i" and q: "buf \<in> quiet_buffers"
      and five: "buf = 5 \<Longrightarrow> offset pb = e"
      by (auto simp: draining_def)
    from quiet_drain [OF q pos] show ?thesis
    proof
      assume "buf = 5 \<and> (2 * buf) mod 32 \<in> filled_windows"
      then have b5: "buf = 5" and "w \<in> filled_windows" by (auto simp: w_def)
      then have tb: "b" by (simp add: b w next_cell_filled)
      have started: "\<not> (runs pb = [] \<and> count pb = 0 \<and> \<not> b)" using tb by simp
      note st = emit_started [OF ok _ started, of 1]
      from st have em: "emit pb b 1 = insert_bit pb b 1" by simp
      from st have nonblank: "\<not> (runs (insert_bit pb b 1) = [] \<and> count (insert_bit pb b 1) = 0)"
        by simp
      from emit_cell [OF ok, of b]
      have e1: "bend (insert_bit pb b 1) = bend pb + 1"
        and c1: "\<And>i. bcell_at (insert_bit pb b 1) i = (if i = bend pb then b else bcell_at pb i)"
        by (simp_all add: em)
      have bp: "bend pb = e" using blank five [OF b5] by (simp add: bend_blank)
      have "bcell_at (insert_bit pb b 1) i = (i < e + 1 \<and> ?out i)" for i
        using c1 [of i] bp before [of i] blank tb b by (auto simp: bcell_at_blank)
      with nonblank e1 bp w ok1 after1 show ?thesis
        unfolding draining_def w_def [symmetric] b_def [symmetric] by auto
    next
      assume a: "buf \<noteq> 5 \<and> (2 * buf) mod 32 \<notin> filled_windows
        \<and> (2 * buf) mod 32 \<in> quiet_buffers \<and> (2 * buf) mod 32 \<noteq> 5"
      then have nb: "\<not> b" by (simp add: b w [symmetric] w_def next_cell_filled)
      with blank have same: "insert_bit pb b 1 = pb" by (simp add: insert_bit_def)
      have "\<not> ?out i" if "i < e + 1" for i
        using before [of i] that nb b by (cases "i = e") auto
      with a blank w ok after1 show ?thesis
        unfolding draining_def w_def [symmetric] b_def [symmetric] same
        by (auto simp: w_def)
    qed
  next
    case started: False
    with d have e: "bend pb = e" and cellsp: "\<And>i. bcell_at pb i = (i < e \<and> ?out i)"
      by (simp_all add: draining_def)
    from started have st0: "\<not> (runs pb = [] \<and> count pb = 0 \<and> \<not> b)" by blast
    note st = emit_started [OF ok _ st0, of 1]
    from st have em: "emit pb b 1 = insert_bit pb b 1" by simp
    from st have nonblank: "\<not> (runs (insert_bit pb b 1) = [] \<and> count (insert_bit pb b 1) = 0)"
      by simp
    from emit_cell [OF ok, of b]
    have e1: "bend (insert_bit pb b 1) = e + 1"
      and c1: "\<And>i. bcell_at (insert_bit pb b 1) i = (if i = e then b else bcell_at pb i)"
      by (simp_all add: em e)
    have "bcell_at (insert_bit pb b 1) i = (i < e + 1 \<and> ?out i)" for i
      using c1 [of i] cellsp [of i] b by auto
    with nonblank e1 w ok1 after1 show ?thesis
      unfolding draining_def w_def [symmetric] b_def [symmetric] by auto
  qed
qed

lemma draining_end:
  assumes d: "draining p e (buf, pb)" and stop: "\<not> 0 < buf"
  shows "bcell_at pb i = next_cell calculateStates (cell_at p) i"
proof -
  let ?f = "cell_at p"
  from d have buf: "buf = window ?f (e - 1)" and after: "\<And>j. e + 2 \<le> j \<Longrightarrow> \<not> ?f j"
    by (simp_all add: draining_def)
  from stop window_range [of ?f "e - 1"] have "window ?f (e - 1) = 0" by (simp add: buf)
  from window_zero [OF this] have near: "\<not> ?f (e - 3)" "\<not> ?f (e - 2)" "\<not> ?f (e - 1)" "\<not> ?f e" "\<not> ?f (e + 1)"
    by (simp_all add: algebra_simps)
  have blank: "\<not> ?f j" if "e - 3 \<le> j" for j
  proof -
    from that have "j = e - 3 \<or> j = e - 2 \<or> j = e - 1 \<or> j = e \<or> j = e + 1 \<or> e + 2 \<le> j" by arith
    with near after show ?thesis by blast
  qed
  have later: "\<not> next_cell calculateStates ?f i" if "e \<le> i"
  proof -
    have "window ?f i = 0"
      by (intro window_blank blank) (use that in simp_all)
    then show ?thesis by (simp add: next_cell_filled filled_windows_def)
  qed
  show ?thesis
  proof (cases "runs pb = [] \<and> count pb = 0")
    case True
    with d have "\<And>i. i < e \<Longrightarrow> \<not> next_cell calculateStates ?f i"
      by (simp add: draining_def)
    with later have "\<not> next_cell calculateStates ?f i" by (cases "i < e") simp_all
    with True show ?thesis by (simp add: bcell_at_blank)
  next
    case False
    with d have "bcell_at pb i = (i < e \<and> next_cell calculateStates ?f i)"
      by (simp add: draining_def)
    with later show ?thesis by (cases "i < e") simp_all
  qed
qed

lemma read_drain_cells:
  "states = calculateStates \<Longrightarrow> draining p e s \<Longrightarrow>
     \<exists>q. read_drain states s = Inr q \<and> builder_ok q
       \<and> (\<forall>i. bcell_at q i = next_cell calculateStates (cell_at p) i)"
proof (induction states s arbitrary: e rule: read_drain.induct)
  case (1 states buffer pb)
  note st = \<open>states = calculateStates\<close>
  from 1(3) have ok: "builder_ok pb" by (simp add: draining_def)
  show ?case
  proof (cases "0 < buffer")
    case False
    with draining_end [OF 1(3) False] ok show ?thesis
      by (simp add: read_drain_stop)
  next
    case True
    let ?w = "(2 * buffer) mod 32"
    have look: "states ?w = Some (the (states ?w))"
      unfolding st by (rule table_completeD [OF table_complete_calculateStates]) simp_all
    have step: "draining p (e + 1) (?w, insert_bit pb (the (states ?w)) 1)"
      unfolding st by (rule draining_step [OF 1(3) True])
    from 1(1) [OF True and_30_eq [symmetric] look st step]
    show ?thesis
      by (simp only: read_drain_step [of buffer states "the (states ?w)" pb, OF True look])
  qed
qed


section \<open>The next generation\<close>

lemma trimmed_ends:
  assumes t: "trimmed q" and f: "\<not> no_filled q"
  shows "cell_at q (offset q) \<and> cell_at q (offset q + int (length (cells q)) - 1)"
proof -
  from f have ne: "cells q \<noteq> []" by (auto simp: no_filled_def)
  from t f have pos: "list_all (\<lambda>r. 0 < r) (runs q)" and odd: "odd (length (runs q))"
    by (auto simp: trimmed_def no_filled_def cells_def)
  from odd obtain r rs where rs: "runs q = r # rs" by (cases "runs q") auto
  with pos have "0 < r" by simp
  then have first: "cells q ! 0"
    by (simp add: cells_def rs nth_append)
  from odd have "runs q \<noteq> []" by auto
  then obtain rs1 r1 where sn: "runs q = rs1 @ [r1]"
    by (metis append_butlast_last_id)
  with pos odd have r1: "0 < r1" and ev: "even (length rs1)" by simp_all
  have "cells q = expand True rs1 @ replicate (nat r1) True"
    using ev by (simp add: cells_def sn expand_snoc)
  with r1 have "last (cells q)" by simp
  then have lst: "cells q ! (length (cells q) - 1)"
    using ne by (simp add: last_conv_nth)
  from ne have len: "0 < length (cells q)" by simp
  have "nat (int (length (cells q)) - 1) = length (cells q) - 1" by simp
  with first lst len show ?thesis
    by (simp add: cell_at_def)
qed

text \<open>
  Claim C1. For every pattern \<open>p\<close>, \<open>read\<close> with the table of \<open>calculateStates\<close> returns a
  pattern \<open>q\<close> that is the next generation: at every position the cell decoded from \<open>q\<close>
  is the entry of the table for the window of five cells of \<open>p\<close> centred there, the cells
  outside the support of \<open>p\<close> being blank. The blank cells at either end are trimmed: \<open>q\<close>
  has an odd number of runs, all positive unless the line is blank, so when the next line
  has a filled cell the offset of \<open>q\<close> is the position of the first one and the last run
  ends at the last one.
\<close>

theorem read_next_generation:
  "\<exists>q. read p calculateStates = Inr q
     \<and> (\<forall>i. cell_at q i = next_cell calculateStates (cell_at p) i)
     \<and> trimmed q
     \<and> (\<not> no_filled q \<longrightarrow>
          cell_at q (offset q) \<and> cell_at q (offset q + int (length (cells q)) - 1))"
proof -
  let ?s0 = "(0::int, Pattern_init (offset p - 2))"
  let ?s1 = "foldl (feed calculateStates) ?s0 (cells p)"
  let ?e = "offset p - 2 + int (length (cells p))"
  have runs: "read_runs calculateStates 1 (runs p) ?s0 = Inr ?s1"
    using read_runs_fold [OF table_complete_calculateStates, of 1 ?s0 "runs p"]
    by (simp add: builder_ok_init cells_def)
  have "reading p ?e ?s1"
    using reading_take [of "length (cells p)" p] by simp
  then have "draining p ?e ?s1"
    by (rule draining_start) (simp add: cell_after)
  from read_drain_cells [OF refl this]
  obtain q where q: "read_drain calculateStates ?s1 = Inr q" and ok: "builder_ok q"
    and c: "\<And>i. bcell_at q i = next_cell calculateStates (cell_at p) i"
    by blast
  have "read p calculateStates = Inr (complete q)"
    using runs q by (simp add: read_def)
  moreover have t: "trimmed (complete q)"
    using ok by (rule trimmed_complete)
  moreover have "cell_at (complete q) i = next_cell calculateStates (cell_at p) i" for i
    by (simp add: cell_at_complete [OF ok] c)
  ultimately show ?thesis
    using trimmed_ends [OF t] by blast
qed

theorem read_next_generation_witness:
  "read \<lparr>runs = [2, 1, 1], offset = 0, count = 0\<rparr> calculateStates
     = Inr \<lparr>runs = [1, 1, 2], offset = - 1, count = 4\<rparr>
   \<and> cell_at \<lparr>runs = [1, 1, 2], offset = - 1, count = 4\<rparr> 1
   \<and> next_cell calculateStates (cell_at \<lparr>runs = [2, 1, 1], offset = 0, count = 0\<rparr>) 1
   \<and> cell_at \<lparr>runs = [1, 1, 2], offset = - 1, count = 4\<rparr> (- 1)"
proof -
  let ?p = "\<lparr>runs = [2, 1, 1], offset = 0, count = 0\<rparr>"
  let ?q = "\<lparr>runs = [1, 1, 2], offset = - 1, count = 4\<rparr>"
  have r: "read ?p calculateStates = Inr ?q" by code_simp
  from read_next_generation [of ?p] r
  have c: "\<And>i. cell_at ?q i = next_cell calculateStates (cell_at ?p) i"
    and e: "\<not> no_filled ?q \<longrightarrow> cell_at ?q (offset ?q)"
    by auto
  have "cell_at ?q 1" by (simp add: cell_at_def cells_def)
  moreover from this c [of 1] have "next_cell calculateStates (cell_at ?p) 1" by simp
  moreover have "\<not> no_filled ?q" by (simp add: no_filled_def cells_def)
  with e have "cell_at ?q (- 1)" by simp
  ultimately show ?thesis using r by simp
qed

section \<open>Parsing and the offset\<close>

lemma offset_emit:
  assumes ok: "builder_ok p" and k: "0 < k"
  shows "offset (emit p b k) = (if runs p = [] \<and> count p = 0 \<and> \<not> b then offset p + k else offset p)"
proof (cases "runs p = [] \<and> count p = 0 \<and> \<not> b")
  case True
  then show ?thesis by (simp add: emit_blank_start)
next
  case False
  from emit_started [OF ok k False] have "emit p b k = insert_bit p b k" by simp
  with False show ?thesis by (auto simp: offset_insert_bit)
qed

text \<open>
  Claim C5, amended. Parsing \<open>#..##\<close> yields the runs \<open>[1, 2, 2]\<close> and the offset 0, and
  parsing \<open>..#.#..\<close> yields the runs \<open>[1, 1, 1]\<close> and the offset 0: \<open>insert\<close> never
  changes the offset, so \<open>toPattern\<close> returns the offset 0 of \<open>Pattern()\<close> for every input
  it accepts, and the blank cells before the first filled one are dropped without being
  counted. The offset is counted in \<open>read\<close> only: there each step written while the new
  pattern has no cell yet increments its offset, and the offset is frozen from the first
  filled cell on.
\<close>

theorem toPattern_examples:
  "toPattern ''#..##'' = Inr \<lparr>runs = [1, 2, 2], offset = 0, count = 0\<rparr>
   \<and> toPattern ''..#.#..'' = Inr \<lparr>runs = [1, 1, 1], offset = 0, count = 2\<rparr>
   \<and> (\<forall>input p. toPattern input = Inr p \<longrightarrow> offset p = 0)
   \<and> (\<forall>p b steps. offset (insert_bit p b steps) = offset p)
   \<and> (\<forall>p b steps. builder_ok p \<and> 0 < steps \<longrightarrow>
        offset (emit p b steps)
          = (if runs p = [] \<and> count p = 0 \<and> \<not> b then offset p + steps else offset p))"
proof -
  have "toPattern ''#..##'' = Inr \<lparr>runs = [1, 2, 2], offset = 0, count = 0\<rparr>"
    by (simp add: toPattern_def insert_eval)
  moreover have "toPattern ''..#.#..'' = Inr \<lparr>runs = [1, 1, 1], offset = 0, count = 2\<rparr>"
    by (simp add: toPattern_def insert_eval)
  moreover have "offset p = 0" if "toPattern input = Inr p" for input p
  proof -
    from that obtain q where q: "toPattern_loop (Pattern_init 0) input = Inr q" and p: "p = complete q"
      by (auto simp: toPattern_def split: sum.splits)
    from toPattern_loop_offset [OF q] have "offset q = 0" by (simp add: Pattern_init_def)
    with p show ?thesis by (simp add: offset_complete)
  qed
  ultimately show ?thesis by (simp add: offset_insert_bit offset_emit)
qed

theorem toPattern_examples_witness:
  "toPattern ''...#'' = Inr \<lparr>runs = [1], offset = 0, count = 0\<rparr>
   \<and> offset \<lparr>runs = [1], offset = 0, count = 0\<rparr> = 0
   \<and> offset (emit (Pattern_init 7) False 3) = 10
   \<and> offset (emit (Pattern_init 7) True 3) = 7"
proof -
  have e: "toPattern ''...#'' = Inr \<lparr>runs = [1], offset = 0, count = 0\<rparr>"
    by (simp add: toPattern_def insert_eval)
  from toPattern_examples have "\<forall>input p. toPattern input = Inr p \<longrightarrow> offset p = 0"
    by blast
  with e have 1: "offset \<lparr>runs = [1], offset = 0, count = 0\<rparr> = 0" by blast
  from toPattern_examples
  have r: "\<forall>p b steps. builder_ok p \<and> 0 < steps \<longrightarrow>
        offset (emit p b steps)
          = (if runs p = [] \<and> count p = 0 \<and> \<not> b then offset p + steps else offset p)"
    by blast
  have ok: "builder_ok (Pattern_init 7) \<and> (0::int) < 3"
    by (simp add: builder_ok_init)
  from r ok have "offset (emit (Pattern_init 7) False 3)
      = (if runs (Pattern_init 7) = [] \<and> count (Pattern_init 7) = 0 \<and> \<not> False
         then offset (Pattern_init 7) + 3 else offset (Pattern_init 7))"
    by blast
  then have 2: "offset (emit (Pattern_init 7) False 3) = 10"
    by (simp add: Pattern_init_def)
  from r ok have "offset (emit (Pattern_init 7) True 3)
      = (if runs (Pattern_init 7) = [] \<and> count (Pattern_init 7) = 0 \<and> \<not> True
         then offset (Pattern_init 7) + 3 else offset (Pattern_init 7))"
    by blast
  then have 3: "offset (emit (Pattern_init 7) True 3) = 7"
    by (simp add: Pattern_init_def)
  from e 1 2 3 show ?thesis by simp
qed

end
